theory Spec2Isabelle
  imports Complex_Main "HOL-Library.AList" "HOL-Library.Log_Nat"
begin

section \<open>The GitHub records the engine reads\<close>

text \<open>
  The engine of \<^verbatim>\<open>GitHubAPI\<close> (github-api.js) works on the JSON objects of the GitHub
  issues endpoint. A field the code reads without a test has its plain type here; a field
  the code tests for presence (\<^verbatim>\<open>issue.assignee\<close>, \<^verbatim>\<open>issue.assignees\<close>) is an option, \<open>None\<close>
  standing for \<^verbatim>\<open>null\<close> or \<^verbatim>\<open>undefined\<close>. Strings are byte strings (UTF-8). The field
  \<open>closed_at\<close> holds the instant the timestamp string denotes, in milliseconds since the
  epoch, \<open>None\<close> for \<^verbatim>\<open>null\<close>.
\<close>

record github_user =
  login :: string
  avatar_url :: string
  html_url :: string

record github_label =
  name :: string

record issue =
  number :: int
  title :: string
  state :: string
  user :: github_user
  assignee :: "github_user option"
  assignees :: "github_user list option"
  labels :: "github_label list"
  closed_at :: "int option"

text \<open>The constants of \<^verbatim>\<open>BuddyExchangeConfig\<close> (config.js) the engine uses.\<close>

definition repository_fullName :: string where
  "repository_fullName = ''codecheckers/testing-dev-register''"

definition labels_buddyExchange :: string where
  "labels_buddyExchange = ''buddy exchange''"

definition labels_needsCodechecker :: string where
  "labels_needsCodechecker = ''needs codechecker''"

definition issuesPerPage :: int where
  "issuesPerPage = 100"

definition maxLeaderboardPages :: int where
  "maxLeaderboardPages = 10"

definition maxAllIssuesPages :: int where
  "maxAllIssuesPages = 50"

text \<open>
  What the engine throws: \<open>ApiError status statusText\<close> is the
  \<^verbatim>\<open>new Error(`GitHub API error: ${response.status} ${response.statusText}`)\<close> of the fetch
  functions, \<open>FetchRejected\<close> the rejection of \<^verbatim>\<open>fetch\<close> itself, which they pass on, and
  \<open>TypeError\<close> the failure of reading a property of \<^verbatim>\<open>undefined\<close>.
\<close>

datatype error =
  ApiError nat string
  | FetchRejected
  | TypeError

section \<open>Strings\<close>

definition is_upper :: "char \<Rightarrow> bool" where
  "is_upper c = (65 \<le> (of_char c :: nat) \<and> (of_char c :: nat) \<le> 90)"

definition lower_char :: "char \<Rightarrow> char" where
  "lower_char c = (if is_upper c then char_of ((of_char c :: nat) + 32) else c)"

text \<open>
  \<^verbatim>\<open>String.prototype.toLowerCase\<close>. The code only ever compares its result with the
  lower-cased configuration labels, which are ASCII. Besides \<open>A\<close> to \<open>Z\<close> the one character
  that lower-cases to an ASCII character is the Kelvin sign U+212A (bytes E2 84 AA), which
  becomes \<open>k\<close>; every other character outside ASCII stays outside ASCII, and is left
  as it is here.
\<close>

fun toLowerCase :: "string \<Rightarrow> string" where
  "toLowerCase (a # b # c # cs) =
     (if a = CHR 0xE2 \<and> b = CHR 0x84 \<and> c = CHR 0xAA then CHR ''k'' # toLowerCase cs
      else lower_char a # toLowerCase (b # c # cs))"
| "toLowerCase (a # cs) = lower_char a # toLowerCase cs"
| "toLowerCase [] = []"

definition is_digit :: "char \<Rightarrow> bool" where
  "is_digit c = (48 \<le> (of_char c :: nat) \<and> (of_char c :: nat) \<le> 57)"

definition digit_val :: "char \<Rightarrow> int" where
  "digit_val c = int (of_char c) - 48"

text \<open>The value of a string of decimal digits, most significant first.\<close>

definition decimal :: "string \<Rightarrow> int" where
  "decimal ds = foldl (\<lambda>acc c. 10 * acc + digit_val c) 0 ds"

text \<open>
  \<^verbatim>\<open>parseInt(s)\<close> on the strings the extraction passes to it: the leading decimal digits are
  read, and there being none gives \<^verbatim>\<open>NaN\<close> (\<open>None\<close>). An argument \<^verbatim>\<open>undefined\<close> is \<open>None\<close> and
  gives \<^verbatim>\<open>NaN\<close> too. (White space, signs and a hexadecimal prefix, which \<^verbatim>\<open>parseInt\<close> also
  accepts, never occur in a match of the patterns below.)
\<close>

definition parseInt :: "string option \<Rightarrow> int option" where
  "parseInt arg =
     (case arg of
        None \<Rightarrow> None
      | Some s \<Rightarrow>
          (let ds = takeWhile is_digit s in if ds = [] then None else Some (decimal ds)))"

text \<open>\<^verbatim>\<open>s.split('-')\<close>: the pieces between the dashes; never an empty array.\<close>

fun split_dash :: "string \<Rightarrow> string list" where
  "split_dash [] = [[]]"
| "split_dash (c # cs) =
     (if c = CHR ''-'' then [] # split_dash cs
      else (case split_dash cs of p # ps \<Rightarrow> (c # p) # ps | [] \<Rightarrow> [[c]]))"

text \<open>\<^verbatim>\<open>a[i]\<close> on an array: \<^verbatim>\<open>undefined\<close> out of range.\<close>

definition at_index :: "'a list \<Rightarrow> nat \<Rightarrow> 'a option" where
  "at_index xs i = (if i < length xs then Some (xs ! i) else None)"

definition hex_digit :: "nat \<Rightarrow> char" where
  "hex_digit n = (if n < 10 then char_of (48 + n) else char_of (55 + n))"

definition uri_unreserved :: "char \<Rightarrow> bool" where
  "uri_unreserved c =
     (is_digit c \<or> is_upper c \<or> (97 \<le> (of_char c :: nat) \<and> (of_char c :: nat) \<le> 122)
      \<or> c \<in> set ''-_.!~*'()'')"

text \<open>
  \<^verbatim>\<open>encodeURIComponent\<close>: every byte of the UTF-8 form but the unreserved characters is
  written as a percent sign and two upper-case hexadecimal digits.
\<close>

definition encodeURIComponent :: "string \<Rightarrow> string" where
  "encodeURIComponent s =
     concat (map (\<lambda>c. if uri_unreserved c then [c]
                       else [CHR ''%'', hex_digit ((of_char c :: nat) div 16),
                             hex_digit ((of_char c :: nat) mod 16)]) s)"

section \<open>The availability filter\<close>

text \<open>\<^verbatim>\<open>issue.labels.some(label => label.name.toLowerCase() === l.toLowerCase())\<close>\<close>

definition has_label :: "string \<Rightarrow> issue \<Rightarrow> bool" where
  "has_label l i = list_ex (\<lambda>label. toLowerCase (name label) = toLowerCase l) (labels i)"

text \<open>
  \<^verbatim>\<open>!issue.assignee && (!issue.assignees || issue.assignees.length === 0)\<close>: an object is
  truthy, and so is an array, also the empty one.
\<close>

definition isUnassigned :: "issue \<Rightarrow> bool" where
  "isUnassigned i =
     (assignee i = None \<and> (case assignees i of None \<Rightarrow> True | Some as \<Rightarrow> length as = 0))"

text \<open>
  \<^verbatim>\<open>filterAvailableIssues\<close> as it stands in the revision that also has the buddy report
  (and that app.js runs): the "buddy exchange" label is required first.
\<close>

definition available :: "issue \<Rightarrow> bool" where
  "available i =
     (if \<not> has_label labels_buddyExchange i then False
      else if has_label labels_needsCodechecker i then True
      else isUnassigned i)"

definition filterAvailableIssues :: "issue list \<Rightarrow> issue list" where
  "filterAvailableIssues issues = filter available issues"

text \<open>
  \<^verbatim>\<open>filterAvailableIssues\<close> of the other revision of github-api.js, which has no test for
  the "buddy exchange" label.
\<close>

definition available_rev2 :: "issue \<Rightarrow> bool" where
  "available_rev2 i =
     (if has_label labels_needsCodechecker i then True
      else isUnassigned i)"

definition filterAvailableIssues_rev2 :: "issue list \<Rightarrow> issue list" where
  "filterAvailableIssues_rev2 issues = filter available_rev2 issues"

definition filterUnassignedIssues :: "issue list \<Rightarrow> issue list" where
  "filterUnassignedIssues issues = filter isUnassigned issues"

section \<open>Objects used as dictionaries\<close>

text \<open>
  \<^verbatim>\<open>const userStats = {}\<close> is an ordinary object: its own properties, kept here in the order
  of their creation, and behind them the properties every object inherits from
  \<^verbatim>\<open>Object.prototype\<close>. Reading \<^verbatim>\<open>userStats[k]\<close> finds an own property, else an inherited
  one (a function or the prototype object itself, truthy in each case), else \<^verbatim>\<open>undefined\<close>.
\<close>

type_synonym 'a js_object = "(string \<times> 'a) list"

definition prototype_keys :: "string list" where
  "prototype_keys =
     [''constructor'', ''hasOwnProperty'', ''isPrototypeOf'', ''propertyIsEnumerable'',
      ''toLocaleString'', ''toString'', ''valueOf'', ''__proto__'',
      ''__defineGetter__'', ''__defineSetter__'', ''__lookupGetter__'', ''__lookupSetter__'']"

datatype 'a property = Own 'a | Inherited | Undefined

definition get_prop :: "'a js_object \<Rightarrow> string \<Rightarrow> 'a property" where
  "get_prop obj k =
     (case map_of obj k of
        Some v \<Rightarrow> Own v
      | None \<Rightarrow> if k \<in> set prototype_keys then Inherited else Undefined)"

text \<open>
  \<^verbatim>\<open>if (!obj[k]) { obj[k] = fresh; }\<close>: only \<^verbatim>\<open>undefined\<close> is falsy among the three, and the
  new property comes last.
\<close>

definition ensure :: "string \<Rightarrow> 'a \<Rightarrow> 'a js_object \<Rightarrow> 'a js_object" where
  "ensure k fresh obj =
     (case get_prop obj k of Undefined \<Rightarrow> obj @ [(k, fresh)] | _ \<Rightarrow> obj)"

text \<open>
  A run of statements \<^verbatim>\<open>obj[k].count++; obj[k].list.push(n); ...\<close> that updates the record
  stored under \<open>k\<close> in place. On an inherited property the increment stores \<^verbatim>\<open>NaN\<close> on the
  inherited function and \<^verbatim>\<open>obj[k].list\<close> is \<^verbatim>\<open>undefined\<close>, so that \<^verbatim>\<open>push\<close> throws a
  \<^verbatim>\<open>TypeError\<close>; on \<^verbatim>\<open>undefined\<close> the first read throws it.
\<close>

definition modify :: "string \<Rightarrow> ('a \<Rightarrow> 'a) \<Rightarrow> 'a js_object \<Rightarrow> error + 'a js_object" where
  "modify k f obj =
     (case get_prop obj k of
        Own v \<Rightarrow> Inr (AList.update k (f v) obj)
      | _ \<Rightarrow> Inl TypeError)"

text \<open>
  A property name is an array index when it is the canonical decimal form of an integer
  up to \<open>2^32 - 2\<close>. \<^verbatim>\<open>Object.values\<close> lists the values of such names first, in ascending
  numeric order, then the others in the order of their creation.
\<close>

definition is_array_index :: "string \<Rightarrow> bool" where
  "is_array_index k =
     (k \<noteq> [] \<and> list_all is_digit k \<and> (k = ''0'' \<or> hd k \<noteq> CHR ''0'')
      \<and> decimal k \<le> 4294967294)"

definition Object_values :: "'a js_object \<Rightarrow> 'a list" where
  "Object_values obj =
     map snd (sort_key (\<lambda>p. decimal (fst p)) (filter (\<lambda>p. is_array_index (fst p)) obj))
     @ map snd (filter (\<lambda>p. \<not> is_array_index (fst p)) obj)"

text \<open>\<^verbatim>\<open>xs.forEach(f)\<close> with a callback that updates the state \<open>s\<close> and may throw.\<close>

fun forEach :: "('a \<Rightarrow> 's \<Rightarrow> error + 's) \<Rightarrow> 'a list \<Rightarrow> 's \<Rightarrow> error + 's" where
  "forEach f [] s = Inr s"
| "forEach f (x # xs) s = (case f x s of Inl e \<Rightarrow> Inl e | Inr s' \<Rightarrow> forEach f xs s')"

section \<open>The leaderboard\<close>

record stats_base =
  username :: string
  avatar :: string
  url :: string
  searchUrl :: "string option"

record leader_stats = stats_base +
  completedCount :: int
  lastCompleted :: "int option"
  completedIssues :: "int list"

record report_base =
  lastUpdated :: int

record leaderboard_report = report_base +
  leaderboard :: "leader_stats list"
  totalCompleted :: int
  activeContributors :: int

definition generateUserIssuesSearchUrl :: "string \<Rightarrow> string" where
  "generateUserIssuesSearchUrl uname =
     ''https://github.com/search?q=''
     @ encodeURIComponent
         (''repo:'' @ repository_fullName @ '' label:'' @ [CHR 0x22] @ labels_buddyExchange
          @ [CHR 0x22] @ '' assignee:'' @ uname @ '' is:closed'')
     @ ''&type=issues''"

text \<open>\<^verbatim>\<open>new Date(issue.closed_at)\<close>, as milliseconds: \<^verbatim>\<open>new Date(null)\<close> is the epoch.\<close>

definition new_Date :: "int option \<Rightarrow> int" where
  "new_Date t = (case t of None \<Rightarrow> 0 | Some ms \<Rightarrow> ms)"

definition new_leader :: "github_user \<Rightarrow> leader_stats" where
  "new_leader a =
     \<lparr>username = login a, avatar = avatar_url a, url = html_url a, searchUrl = None,
      completedCount = 0, lastCompleted = None, completedIssues = []\<rparr>"

text \<open>
  \<^verbatim>\<open>completedCount++; completedIssues.push(issue.number);\<close> and the update of
  \<^verbatim>\<open>lastCompleted\<close> when it is \<^verbatim>\<open>null\<close> or earlier than the closing date.
\<close>

definition add_completed :: "issue \<Rightarrow> leader_stats \<Rightarrow> leader_stats" where
  "add_completed i e =
     (let closedDate = new_Date (closed_at i) in
      e\<lparr>completedCount := completedCount e + 1,
        completedIssues := completedIssues e @ [number i],
        lastCompleted :=
          (case lastCompleted e of
             None \<Rightarrow> Some closedDate
           | Some d \<Rightarrow> if closedDate > d then Some closedDate else Some d)\<rparr>)"

text \<open>\<^verbatim>\<open>issue.assignee || (issue.assignees && issue.assignees.length > 0)\<close>\<close>

definition has_assignee :: "issue \<Rightarrow> bool" where
  "has_assignee i =
     (assignee i \<noteq> None \<or> (case assignees i of None \<Rightarrow> False | Some as \<Rightarrow> length as > 0))"

text \<open>\<^verbatim>\<open>!issue.assignee || issue.assignee.login !== username\<close>\<close>

definition not_primary :: "issue \<Rightarrow> string \<Rightarrow> bool" where
  "not_primary i uname = (case assignee i of None \<Rightarrow> True | Some a \<Rightarrow> login a \<noteq> uname)"

definition count_primary :: "issue \<Rightarrow> leader_stats js_object \<Rightarrow> error + leader_stats js_object" where
  "count_primary i userStats =
     (case assignee i of
        None \<Rightarrow> Inr userStats
      | Some a \<Rightarrow> modify (login a) (add_completed i) (ensure (login a) (new_leader a) userStats))"

definition count_additional ::
  "issue \<Rightarrow> github_user \<Rightarrow> leader_stats js_object \<Rightarrow> error + leader_stats js_object" where
  "count_additional i a userStats =
     (let userStats1 = ensure (login a) (new_leader a) userStats in
      if not_primary i (login a) then modify (login a) (add_completed i) userStats1
      else Inr userStats1)"

definition count_additionals :: "issue \<Rightarrow> leader_stats js_object \<Rightarrow> error + leader_stats js_object" where
  "count_additionals i userStats =
     (case assignees i of
        None \<Rightarrow> Inr userStats
      | Some as \<Rightarrow> if length as > 0 then forEach (count_additional i) as userStats
                   else Inr userStats)"

text \<open>The body of the loop over the closed issues; the state is \<^verbatim>\<open>userStats\<close> and \<^verbatim>\<open>totalCompleted\<close>.\<close>

definition leaderboard_issue ::
  "issue \<Rightarrow> leader_stats js_object \<times> int \<Rightarrow> error + leader_stats js_object \<times> int" where
  "leaderboard_issue i st =
     (if has_assignee i then
        (case count_primary i (fst st) of
           Inl e \<Rightarrow> Inl e
         | Inr userStats1 \<Rightarrow>
             (case count_additionals i userStats1 of
                Inl e \<Rightarrow> Inl e
              | Inr userStats2 \<Rightarrow> Inr (userStats2, snd st + 1)))
      else Inr st)"

text \<open>
  \<^verbatim>\<open>calculateLeaderboard\<close>. The clock that \<^verbatim>\<open>new Date()\<close> reads is the parameter \<open>now\<close>.
  \<^verbatim>\<open>Array.prototype.sort\<close> is stable, as \<open>sort_key\<close> is; the comparator
  \<^verbatim>\<open>b.completedCount - a.completedCount\<close> orders by descending count.
\<close>

definition calculateLeaderboard :: "int \<Rightarrow> issue list \<Rightarrow> error + leaderboard_report" where
  "calculateLeaderboard now closedIssues =
     (case forEach leaderboard_issue closedIssues ([], 0) of
        Inl e \<Rightarrow> Inl e
      | Inr st \<Rightarrow>
          (let sorted_users = sort_key (\<lambda>u. - completedCount u) (Object_values (fst st));
               board = map (\<lambda>u. u\<lparr>searchUrl := Some (generateUserIssuesSearchUrl (username u))\<rparr>)
                         sorted_users
           in Inr \<lparr>lastUpdated = now, leaderboard = board, totalCompleted = snd st,
                   activeContributors = int (length board)\<rparr>))"

section \<open>The buddy report\<close>

record buddy_stats = stats_base +
  receivedChecks :: int
  conductedChecks :: int
  receivedIssues :: "int list"
  conductedIssues :: "int list"

record buddy_entry = buddy_stats +
  ratio :: rat
  deficit :: int

record buddy_report = report_base +
  allRecipients :: "buddy_entry list"
  totalUsers :: int
  totalIssues :: int

definition new_buddy :: "github_user \<Rightarrow> buddy_stats" where
  "new_buddy a =
     \<lparr>username = login a, avatar = avatar_url a, url = html_url a, searchUrl = None,
      receivedChecks = 0, conductedChecks = 0, receivedIssues = [], conductedIssues = []\<rparr>"

definition receive :: "issue \<Rightarrow> buddy_stats \<Rightarrow> buddy_stats" where
  "receive i e =
     e\<lparr>receivedChecks := receivedChecks e + 1, receivedIssues := receivedIssues e @ [number i]\<rparr>"

definition conduct :: "issue \<Rightarrow> buddy_stats \<Rightarrow> buddy_stats" where
  "conduct i e =
     e\<lparr>conductedChecks := conductedChecks e + 1,
       conductedIssues := conductedIssues e @ [number i]\<rparr>"

text \<open>The first loop: a received check for the author of every issue.\<close>

definition received_issue :: "issue \<Rightarrow> buddy_stats js_object \<Rightarrow> error + buddy_stats js_object" where
  "received_issue i userStats =
     modify (login (user i)) (receive i) (ensure (login (user i)) (new_buddy (user i)) userStats)"

definition conducted_primary :: "issue \<Rightarrow> buddy_stats js_object \<Rightarrow> error + buddy_stats js_object" where
  "conducted_primary i userStats =
     (case assignee i of
        None \<Rightarrow> Inr userStats
      | Some a \<Rightarrow> modify (login a) (conduct i) (ensure (login a) (new_buddy a) userStats))"

definition conducted_additional ::
  "issue \<Rightarrow> github_user \<Rightarrow> buddy_stats js_object \<Rightarrow> error + buddy_stats js_object" where
  "conducted_additional i a userStats =
     (let userStats1 = ensure (login a) (new_buddy a) userStats in
      if not_primary i (login a) then modify (login a) (conduct i) userStats1
      else Inr userStats1)"

definition conducted_additionals :: "issue \<Rightarrow> buddy_stats js_object \<Rightarrow> error + buddy_stats js_object" where
  "conducted_additionals i userStats =
     (case assignees i of
        None \<Rightarrow> Inr userStats
      | Some as \<Rightarrow> if length as > 0 then forEach (conducted_additional i) as userStats
                   else Inr userStats)"

text \<open>The second loop: a conducted check for the assignees of every closed issue.\<close>

definition conducted_issue :: "issue \<Rightarrow> buddy_stats js_object \<Rightarrow> error + buddy_stats js_object" where
  "conducted_issue i userStats =
     (if state i = ''closed'' \<and> has_assignee i then
        (case conducted_primary i userStats of
           Inl e \<Rightarrow> Inl e
         | Inr userStats1 \<Rightarrow> conducted_additionals i userStats1)
      else Inr userStats)"

text \<open>
  The division of JavaScript. The two counts are numbers, that is doubles, and \<^verbatim>\<open>/\<close> gives
  the double nearest to the quotient, a tie going to the even significand. For positive
  \<open>a\<close> and \<open>b\<close> the quotient lies in the binade \<open>2^e \<le> a / b < 2^(e + 1)\<close>, where the doubles
  are the multiples of \<open>2^(e - 52)\<close>; \<open>bitlen\<close> is the number of binary digits. The result
  is kept as the rational number the double stands for. The counts here are lengths of
  arrays, far below \<open>2^53\<close>, so they are doubles themselves and the quotient is in the
  normal range; the dividend is positive and the divisor at least 1 where
  \<^verbatim>\<open>calculateBuddyRatios\<close> divides.
\<close>

definition binade :: "int \<Rightarrow> int \<Rightarrow> int" where
  "binade a b =
     (let k = bitlen a - bitlen b in
      if (of_int a :: rat) < of_int b * 2 powi k then k - 1 else k)"

definition round_half_even :: "rat \<Rightarrow> int" where
  "round_half_even x =
     (let n = \<lfloor>x\<rfloor>; r = x - of_int n in
      if r < 1 / 2 then n else if 1 / 2 < r then n + 1 else if even n then n else n + 1)"

definition double_quotient :: "int \<Rightarrow> int \<Rightarrow> rat" where
  "double_quotient a b =
     (let e = binade a b in
      of_int (round_half_even (of_int a / of_int b * 2 powi (52 - e))) * 2 powi (e - 52))"

text \<open>
  The object literal \<^verbatim>\<open>{...user, ratio: ..., deficit: ..., searchUrl: ...}\<close>, with the
  quotient \<^verbatim>\<open>user.receivedChecks / Math.max(user.conductedChecks, 1)\<close> as JavaScript
  computes it.
\<close>

definition with_ratio :: "buddy_stats \<Rightarrow> buddy_entry" where
  "with_ratio u =
     \<lparr>username = username u, avatar = avatar u, url = url u,
      searchUrl = Some (generateUserIssuesSearchUrl (username u)),
      receivedChecks = receivedChecks u, conductedChecks = conductedChecks u,
      receivedIssues = receivedIssues u, conductedIssues = conductedIssues u,
      ratio = double_quotient (receivedChecks u) (max (conductedChecks u) 1),
      deficit = receivedChecks u - conductedChecks u\<rparr>"

text \<open>
  \<^verbatim>\<open>calculateBuddyRatios\<close>. The \<^verbatim>\<open>console.log\<close> calls under \<^verbatim>\<open>BuddyExchangeConfig.ui.debug\<close>
  change nothing of the result and are left out; \<open>now\<close> is the clock again.
\<close>

definition calculateBuddyRatios :: "int \<Rightarrow> issue list \<Rightarrow> error + buddy_report" where
  "calculateBuddyRatios now allIssues =
     (case forEach received_issue allIssues [] of
        Inl e \<Rightarrow> Inl e
      | Inr userStats1 \<Rightarrow>
          (case forEach conducted_issue allIssues userStats1 of
             Inl e \<Rightarrow> Inl e
           | Inr userStats \<Rightarrow>
               (let allUsers = Object_values userStats;
                    recipients =
                      sort_key (\<lambda>u. - ratio u)
                        (map with_ratio (filter (\<lambda>u. receivedChecks u > 0) allUsers))
                in Inr \<lparr>lastUpdated = now, allRecipients = recipients,
                        totalUsers = int (length allUsers),
                        totalIssues = int (length allIssues)\<rparr>)))"

section \<open>Certificate identifiers\<close>

text \<open>
  The six regular expressions are sequences of \<^verbatim>\<open>\d\<close> (an ASCII digit) and the literal dash.
  A byte of a character outside ASCII is neither, so matching over the bytes finds the
  same substrings as matching over UTF-16 code units.
\<close>

datatype atom = Digit | Dash

definition atom_matches :: "atom \<Rightarrow> char \<Rightarrow> bool" where
  "atom_matches a c = (case a of Digit \<Rightarrow> is_digit c | Dash \<Rightarrow> c = CHR ''-'')"

fun match_here :: "atom list \<Rightarrow> string \<Rightarrow> bool" where
  "match_here [] s = True"
| "match_here (a # as) [] = False"
| "match_here (a # as) (c # cs) = (atom_matches a c \<and> match_here as cs)"

text \<open>
  All matches of a global regular expression, left to right: after a match the search goes
  on behind it, otherwise one character further.
\<close>

function match_all :: "atom list \<Rightarrow> string \<Rightarrow> string list" where
  "match_all p [] = []"
| "match_all p (c # cs) =
     (if match_here p (c # cs)
      then take (length p) (c # cs) # match_all p (drop (length p - 1) cs)
      else match_all p cs)"
  by pat_completeness auto
termination
  by (relation "measure (\<lambda>(p, s). length s)") auto

text \<open>\<^verbatim>\<open>title.match(pattern)\<close> with the flag \<^verbatim>\<open>g\<close>: the array of all matches, or \<^verbatim>\<open>null\<close>.\<close>

definition js_match :: "string \<Rightarrow> atom list \<Rightarrow> string list option" where
  "js_match s p = (case match_all p s of [] \<Rightarrow> None | m # ms \<Rightarrow> Some (m # ms))"

definition patterns :: "atom list list" where
  "patterns =
     [[Digit, Digit, Digit, Digit, Dash, Digit, Digit, Digit],
      [Digit, Digit, Digit, Digit, Dash, Digit, Digit],
      [Digit, Digit, Digit, Digit, Dash, Digit],
      [Digit, Digit, Digit],
      [Digit, Digit],
      [Digit]]"

text \<open>The body of \<^verbatim>\<open>matches.forEach\<close>: the number of a match, pushed when it is in range.\<close>

definition match_number :: "string \<Rightarrow> int option" where
  "match_number m =
     (if CHR ''-'' \<in> set m then parseInt (at_index (split_dash m) 1)
      else parseInt (Some m))"

definition push_match :: "int list \<Rightarrow> string \<Rightarrow> int list" where
  "push_match identifiers m =
     (case match_number m of
        None \<Rightarrow> identifiers
      | Some n \<Rightarrow> if n > 0 \<and> n < 10000 then identifiers @ [n] else identifiers)"

text \<open>The loop over the patterns, left at the first pattern that has a match.\<close>

fun try_patterns :: "atom list list \<Rightarrow> string \<Rightarrow> int list \<Rightarrow> int list" where
  "try_patterns [] t identifiers = identifiers"
| "try_patterns (p # ps) t identifiers =
     (case js_match t p of
        Some matches \<Rightarrow> foldl push_match identifiers matches
      | None \<Rightarrow> try_patterns ps t identifiers)"

text \<open>\<^verbatim>\<open>[...new Set(xs)]\<close>: the first occurrence of every element, in order.\<close>

definition new_Set :: "'a list \<Rightarrow> 'a list" where
  "new_Set xs = foldl (\<lambda>acc x. if x \<in> set acc then acc else acc @ [x]) [] xs"

definition extractCertificateIdentifiers :: "issue list \<Rightarrow> int list" where
  "extractCertificateIdentifiers issues =
     sort (new_Set (foldl (\<lambda>identifiers i. try_patterns patterns (title i) identifiers) [] issues))"

text \<open>
  The loop \<^verbatim>\<open>for (let i = 1; i <= last + 1; i++)\<close> of \<^verbatim>\<open>calculateNextIdentifier\<close>, entered
  with a non-empty array, and the \<^verbatim>\<open>return\<close> behind it.
\<close>

function first_gap :: "int \<Rightarrow> int list \<Rightarrow> int" where
  "first_gap i existing =
     (if i \<le> last existing + 1
      then (if i \<notin> set existing then i else first_gap (i + 1) existing)
      else last existing + 1)"
  by pat_completeness auto
termination
  by (relation "measure (\<lambda>(i, existing). nat (last existing + 2 - i))") auto

declare first_gap.simps [simp del]

definition calculateNextIdentifier :: "int list \<Rightarrow> int" where
  "calculateNextIdentifier existingIdentifiers =
     (if length existingIdentifiers = 0 then 1 else first_gap 1 existingIdentifiers)"

section \<open>The paginated fetch\<close>

text \<open>
  A request is the query string of the URL; the network answers a request by rejecting
  the promise or by a response, whose \<^verbatim>\<open>ok\<close> is the status being in 200 to 299 and whose
  body is a JSON array of issues. A loop asks for each page once, so a network that is a
  function of the request is as general as a sequence of answers.
\<close>

record issues_query =
  q_labels :: "string option"
  q_state :: string
  q_sort :: string
  q_per_page :: int
  q_page :: int

record response =
  status :: nat
  statusText :: string
  json :: "issue list"

datatype outcome = Rejected | Resolved response

definition ok :: "response \<Rightarrow> bool" where
  "ok r = (200 \<le> status r \<and> status r \<le> 299)"

text \<open>
  The loop \<^verbatim>\<open>while (page <= maxPages)\<close> shared by the three fetch functions. Its state is
  \<^verbatim>\<open>page\<close> and \<^verbatim>\<open>allIssues\<close>; \<open>sent\<close> logs the requests made so far. The result is the log
  and what the function gives its caller: the issues, or the error thrown.
\<close>

function fetch_loop ::
  "(issues_query \<Rightarrow> outcome) \<Rightarrow> (int \<Rightarrow> issues_query) \<Rightarrow> int \<Rightarrow> int \<Rightarrow> int \<Rightarrow> issue list
   \<Rightarrow> issues_query list \<Rightarrow> issues_query list \<times> (error + issue list)" where
  "fetch_loop net query perPage maxPages page allIssues sent =
     (if page \<le> maxPages then
        (case net (query page) of
           Rejected \<Rightarrow> (sent @ [query page], Inl FetchRejected)
         | Resolved r \<Rightarrow>
             if \<not> ok r then (sent @ [query page], Inl (ApiError (status r) (statusText r)))
             else if length (json r) = 0 then (sent @ [query page], Inr allIssues)
             else if int (length (json r)) < perPage
               then (sent @ [query page], Inr (allIssues @ json r))
             else fetch_loop net query perPage maxPages (page + 1) (allIssues @ json r)
                    (sent @ [query page]))
      else (sent, Inr allIssues))"
  by pat_completeness auto
termination
  by (relation "measure (\<lambda>(net, query, perPage, maxPages, page, allIssues, sent).
        nat (maxPages + 1 - page))") auto

declare fetch_loop.simps [simp del]

definition closed_query :: "int \<Rightarrow> int \<Rightarrow> issues_query" where
  "closed_query perPage p =
     \<lparr>q_labels = Some (encodeURIComponent labels_buddyExchange), q_state = ''closed'',
      q_sort = ''updated'', q_per_page = perPage, q_page = p\<rparr>"

definition all_query :: "int \<Rightarrow> int \<Rightarrow> issues_query" where
  "all_query perPage p =
     \<lparr>q_labels = None, q_state = ''all'', q_sort = ''created'', q_per_page = perPage,
      q_page = p\<rparr>"

definition all_buddy_query :: "int \<Rightarrow> int \<Rightarrow> issues_query" where
  "all_buddy_query perPage p =
     \<lparr>q_labels = Some (encodeURIComponent labels_buddyExchange), q_state = ''all'',
      q_sort = ''updated'', q_per_page = perPage, q_page = p\<rparr>"

definition fetchClosedBuddyExchangeIssues_run ::
  "(issues_query \<Rightarrow> outcome) \<Rightarrow> int \<Rightarrow> int \<Rightarrow> issues_query list \<times> (error + issue list)" where
  "fetchClosedBuddyExchangeIssues_run net perPage maxPages =
     fetch_loop net (closed_query perPage) perPage maxPages 1 [] []"

definition fetchAllIssues_run ::
  "(issues_query \<Rightarrow> outcome) \<Rightarrow> int \<Rightarrow> int \<Rightarrow> issues_query list \<times> (error + issue list)" where
  "fetchAllIssues_run net perPage maxPages =
     fetch_loop net (all_query perPage) perPage maxPages 1 [] []"

definition fetchAllBuddyExchangeIssues_run ::
  "(issues_query \<Rightarrow> outcome) \<Rightarrow> int \<Rightarrow> int \<Rightarrow> issues_query list \<times> (error + issue list)" where
  "fetchAllBuddyExchangeIssues_run net perPage maxPages =
     fetch_loop net (all_buddy_query perPage) perPage maxPages 1 [] []"

text \<open>What the caller of each function receives.\<close>

definition fetchClosedBuddyExchangeIssues ::
  "(issues_query \<Rightarrow> outcome) \<Rightarrow> int \<Rightarrow> int \<Rightarrow> error + issue list" where
  "fetchClosedBuddyExchangeIssues net perPage maxPages =
     snd (fetchClosedBuddyExchangeIssues_run net perPage maxPages)"

definition fetchAllIssues :: "(issues_query \<Rightarrow> outcome) \<Rightarrow> int \<Rightarrow> int \<Rightarrow> error + issue list" where
  "fetchAllIssues net perPage maxPages = snd (fetchAllIssues_run net perPage maxPages)"

definition fetchAllBuddyExchangeIssues ::
  "(issues_query \<Rightarrow> outcome) \<Rightarrow> int \<Rightarrow> int \<Rightarrow> error + issue list" where
  "fetchAllBuddyExchangeIssues net perPage maxPages =
     snd (fetchAllBuddyExchangeIssues_run net perPage maxPages)"

text \<open>How the network answered a request, for the statements about the loop.\<close>

definition full_page :: "(issues_query \<Rightarrow> outcome) \<Rightarrow> int \<Rightarrow> issues_query \<Rightarrow> bool" where
  "full_page net perPage q =
     (case net q of
        Rejected \<Rightarrow> False
      | Resolved r \<Rightarrow> ok r \<and> length (json r) \<noteq> 0 \<and> perPage \<le> int (length (json r)))"

definition page_issues :: "(issues_query \<Rightarrow> outcome) \<Rightarrow> issues_query \<Rightarrow> issue list" where
  "page_issues net q = (case net q of Rejected \<Rightarrow> [] | Resolved r \<Rightarrow> json r)"

definition answered_ok :: "(issues_query \<Rightarrow> outcome) \<Rightarrow> issues_query \<Rightarrow> bool" where
  "answered_ok net q = (case net q of Rejected \<Rightarrow> False | Resolved r \<Rightarrow> ok r)"

text \<open>What the caller receives when the loop ends at a page that is not full.\<close>

definition last_answer :: "outcome \<Rightarrow> issue list \<Rightarrow> error + issue list" where
  "last_answer out allIssues =
     (case out of
        Rejected \<Rightarrow> Inl FetchRejected
      | Resolved r \<Rightarrow>
          if ok r then Inr (allIssues @ json r) else Inl (ApiError (status r) (statusText r)))"

section \<open>The extraction rule in the words of the specification\<close>

text \<open>
  For the comparison with \<open>try_patterns\<close>, the rule written on its own, with no use of the
  regular expressions of the code. A pattern is a four-digit year, a dash and a suffix of
  so many digits, or a bare number of so many digits; the patterns are tried in this
  order of priority.
\<close>

datatype spec_pattern = YearDash nat | Bare nat

definition priority :: "spec_pattern list" where
  "priority = [YearDash 3, YearDash 2, YearDash 1, Bare 3, Bare 2, Bare 1]"

text \<open>The length of a match of a pattern, and the strings that are such a match.\<close>

definition width :: "spec_pattern \<Rightarrow> nat" where
  "width sp = (case sp of YearDash n \<Rightarrow> 5 + n | Bare n \<Rightarrow> n)"

definition fits :: "spec_pattern \<Rightarrow> string \<Rightarrow> bool" where
  "fits sp m =
     (case sp of
        YearDash n \<Rightarrow>
          length m = 5 + n \<and> list_all is_digit (take 4 m) \<and> take 1 (drop 4 m) = ''-''
          \<and> list_all is_digit (drop 5 m)
      | Bare n \<Rightarrow> length m = n \<and> list_all is_digit m)"

text \<open>
  The positions of the title at which a match of the pattern begins. Every match of the
  pattern is taken: going from left to right, a position counts unless it lies inside a
  match already taken.
\<close>

definition occurrences :: "spec_pattern \<Rightarrow> string \<Rightarrow> nat list" where
  "occurrences sp t =
     filter (\<lambda>k. fits sp (take (width sp) (drop k t))) [0..<length t]"

fun leftmost_disjoint :: "nat \<Rightarrow> nat list \<Rightarrow> nat list" where
  "leftmost_disjoint w [] = []"
| "leftmost_disjoint w (k # ks) = k # leftmost_disjoint w (filter (\<lambda>j. k + w \<le> j) ks)"

definition every_match :: "spec_pattern \<Rightarrow> string \<Rightarrow> string list" where
  "every_match sp t =
     map (\<lambda>k. take (width sp) (drop k t)) (leftmost_disjoint (width sp) (occurrences sp t))"

text \<open>
  A dashed match gives the number behind the dash, a bare match the number it is; only
  numbers strictly between 0 and 10000 are kept. The first pattern in the order of
  priority that has a match anywhere in the title is the only one used.
\<close>

definition identifier_of :: "spec_pattern \<Rightarrow> string \<Rightarrow> int" where
  "identifier_of sp m = (case sp of YearDash n \<Rightarrow> decimal (drop 5 m) | Bare n \<Rightarrow> decimal m)"

definition in_range :: "int \<Rightarrow> bool" where
  "in_range n = (0 < n \<and> n < 10000)"

definition spec_extract :: "string \<Rightarrow> int list" where
  "spec_extract t =
     (case find (\<lambda>sp. occurrences sp t \<noteq> []) priority of
        None \<Rightarrow> []
      | Some sp \<Rightarrow> filter in_range (map (identifier_of sp) (every_match sp t)))"

text \<open>
  For the proof of the comparison: the regular expression that stands for a pattern of
  the rule, the positions at which a regular expression matches, and the patterns that
  have a digit to read.
\<close>

definition atoms_of :: "spec_pattern \<Rightarrow> atom list" where
  "atoms_of sp =
     (case sp of
        YearDash n \<Rightarrow> replicate 4 Digit @ [Dash] @ replicate n Digit
      | Bare n \<Rightarrow> replicate n Digit)"

definition hits :: "atom list \<Rightarrow> string \<Rightarrow> nat list" where
  "hits p t = filter (\<lambda>k. match_here p (drop k t)) [0..<length t]"

definition has_digits :: "spec_pattern \<Rightarrow> bool" where
  "has_digits sp = (case sp of YearDash n \<Rightarrow> 0 < n | Bare n \<Rightarrow> 0 < n)"

section \<open>Notions for the statements about the tallies\<close>

text \<open>
  The logins one issue gives a credit to, in the order of the code: the login of
  \<^verbatim>\<open>issue.assignee\<close>, then the logins of \<^verbatim>\<open>issue.assignees\<close> that pass the test
  \<^verbatim>\<open>!issue.assignee || issue.assignee.login !== username\<close>. \<open>credits u i\<close> counts how often
  \<open>u\<close> is among them.
\<close>

definition credited :: "issue \<Rightarrow> string list" where
  "credited i =
     (case assignee i of None \<Rightarrow> [] | Some a \<Rightarrow> [login a])
     @ (case assignees i of None \<Rightarrow> [] | Some as \<Rightarrow> filter (not_primary i) (map login as))"

definition credits :: "string \<Rightarrow> issue \<Rightarrow> nat" where
  "credits u i = length (filter (\<lambda>l. l = u) (credited i))"

text \<open>
  What the leaderboard object holds for a login, and the invariant of the object: one
  record for a key, filed under its own user name, with a count that is the length of its
  list.
\<close>

definition issues_of :: "leader_stats js_object \<Rightarrow> string \<Rightarrow> int list" where
  "issues_of obj u = (case map_of obj u of None \<Rightarrow> [] | Some e \<Rightarrow> completedIssues e)"

definition tally_ok :: "leader_stats js_object \<Rightarrow> bool" where
  "tally_ok obj =
     (distinct (map fst obj)
      \<and> (\<forall>k e. map_of obj k = Some e \<longrightarrow>
            username e = k \<and> completedCount e = int (length (completedIssues e))))"

text \<open>
  What the input says about a user: the issues the user wrote, the credits the user has
  for closed issues, and the logins that are assignees of an issue.
\<close>

definition assignee_logins :: "issue \<Rightarrow> string set" where
  "assignee_logins i =
     (case assignee i of None \<Rightarrow> {} | Some a \<Rightarrow> {login a})
     \<union> (case assignees i of None \<Rightarrow> {} | Some as \<Rightarrow> login ` set as)"

definition authored :: "string \<Rightarrow> issue list \<Rightarrow> nat" where
  "authored u issues = length (filter (\<lambda>i. login (user i) = u) issues)"

definition conducted :: "string \<Rightarrow> issue list \<Rightarrow> nat" where
  "conducted u issues = sum_list (map (credits u) (filter (\<lambda>i. state i = ''closed'') issues))"

text \<open>What the buddy object holds for a login, and the invariant of the object.\<close>

definition received_of :: "buddy_stats js_object \<Rightarrow> string \<Rightarrow> int list" where
  "received_of obj u = (case map_of obj u of None \<Rightarrow> [] | Some e \<Rightarrow> receivedIssues e)"

definition conducted_of :: "buddy_stats js_object \<Rightarrow> string \<Rightarrow> int list" where
  "conducted_of obj u = (case map_of obj u of None \<Rightarrow> [] | Some e \<Rightarrow> conductedIssues e)"

definition buddy_ok :: "buddy_stats js_object \<Rightarrow> bool" where
  "buddy_ok obj =
     (distinct (map fst obj)
      \<and> (\<forall>k e. map_of obj k = Some e \<longrightarrow>
            username e = k \<and> receivedChecks e = int (length (receivedIssues e))
            \<and> conductedChecks e = int (length (conductedIssues e))))"

section \<open>Sample inputs\<close>

definition person :: "string \<Rightarrow> github_user" where
  "person l =
     \<lparr>login = l, avatar_url = ''https://avatars.githubusercontent.com/'' @ l,
      html_url = ''https://github.com/'' @ l\<rparr>"

text \<open>
  An issue as GitHub sends it: \<^verbatim>\<open>assignee\<close> is the first of \<^verbatim>\<open>assignees\<close>, and a closed issue
  has its closing time.
\<close>

definition sample_issue ::
  "int \<Rightarrow> string \<Rightarrow> string \<Rightarrow> string \<Rightarrow> string list \<Rightarrow> string list \<Rightarrow> issue" where
  "sample_issue n t st author ls as =
     \<lparr>number = n, title = t, state = st, user = person author,
      assignee = (case as of [] \<Rightarrow> None | a # _ \<Rightarrow> Some (person a)),
      assignees = Some (map person as),
      labels = map (\<lambda>l. \<lparr>name = l\<rparr>) ls,
      closed_at = (if st = ''closed'' then Some (1700000000000 + n) else None)\<rparr>"

definition needs_two :: issue where
  "needs_two =
     sample_issue 11 ''Check A'' ''open'' ''alice'' [''Needs Codechecker''] [''bob'', ''carol'']"

definition plain_one :: issue where
  "plain_one = sample_issue 12 ''Check B'' ''open'' ''alice'' [''buddy exchange''] [''bob'']"

definition unlabelled :: issue where
  "unlabelled = sample_issue 13 ''Check C'' ''open'' ''alice'' [] []"

definition buddy_needs_two :: issue where
  "buddy_needs_two =
     sample_issue 14 ''Check D'' ''open'' ''alice'' [''buddy exchange'', ''needs codechecker'']
       [''bob'', ''carol'']"

definition buddy_free :: issue where
  "buddy_free = sample_issue 15 ''Check E'' ''open'' ''alice'' [''Buddy Exchange''] []"

definition id_issues :: "issue list" where
  "id_issues =
     [sample_issue 21 ''Paper one | 2025-001'' ''closed'' ''alice'' [''buddy exchange''] [''bob''],
      sample_issue 22 ''2025-002'' ''closed'' ''bob'' [''buddy exchange''] [''alice''],
      sample_issue 23 ''Paper three | 2025-004'' ''open'' ''carol'' [''buddy exchange''] []]"

text \<open>
  Two networks for a page size of two: a full first page, then an empty page; and a full
  first page, then a refusal.
\<close>

definition ok_page :: "issue list \<Rightarrow> outcome" where
  "ok_page issues = Resolved \<lparr>status = 200, statusText = ''OK'', json = issues\<rparr>"

definition net_full_then_empty :: "issues_query \<Rightarrow> outcome" where
  "net_full_then_empty q =
     (if q_page q = 1 then ok_page [buddy_needs_two, plain_one] else ok_page [])"

definition net_full_then_forbidden :: "issues_query \<Rightarrow> outcome" where
  "net_full_then_forbidden q =
     (if q_page q = 1 then ok_page [buddy_needs_two, plain_one]
      else Resolved \<lparr>status = 403, statusText = ''Forbidden'', json = []\<rparr>)"

definition closed_issues :: "issue list" where
  "closed_issues =
     [sample_issue 31 ''Paper one | 2025-001'' ''closed'' ''alice'' [''buddy exchange'']
        [''bob'', ''carol''],
      sample_issue 32 ''Paper two | 2025-002'' ''closed'' ''bob'' [''buddy exchange''] [''carol''],
      sample_issue 33 ''Paper three'' ''closed'' ''carol'' [''buddy exchange''] []]"

definition twice_listed :: "issue list" where
  "twice_listed =
     [sample_issue 41 ''Paper four | 2025-004'' ''closed'' ''alice'' [''buddy exchange''] [''bob''],
      sample_issue 41 ''Paper four | 2025-004'' ''closed'' ''alice'' [''buddy exchange''] [''bob'']]"

text \<open>The columns of a report that the examples look at.\<close>

definition completed_lists :: "error + leaderboard_report \<Rightarrow> (string \<times> int \<times> int list) list" where
  "completed_lists res =
     (case res of
        Inl e \<Rightarrow> []
      | Inr r \<Rightarrow> map (\<lambda>e. (username e, completedCount e, completedIssues e)) (leaderboard r))"




section \<open>Properties of the availability filter\<close>

text \<open>
  C1, as the code has it. The revision of \<^verbatim>\<open>filterAvailableIssues\<close> without the test for the
  "buddy exchange" label includes every issue with the "needs codechecker" label, however
  many assignees it has, excludes an issue without that label that has an assignee, and
  includes an issue with no labels and no assignees. The revision with the test excludes
  every issue without the "buddy exchange" label, the unlabelled ones among them; an issue
  that carries the "buddy exchange" label is included when it has the "needs codechecker"
  label as well, however many assignees it has, and when it has no assignee, and it is
  excluded when it has an assignee and no "needs codechecker" label.
\<close>

theorem filterAvailableIssues_policy:
  assumes "i \<in> set issues"
  shows "(has_label labels_needsCodechecker i \<longrightarrow> i \<in> set (filterAvailableIssues_rev2 issues))
    \<and> (\<not> has_label labels_needsCodechecker i \<and> \<not> isUnassigned i
         \<longrightarrow> i \<notin> set (filterAvailableIssues_rev2 issues))
    \<and> (labels i = [] \<and> isUnassigned i \<longrightarrow> i \<in> set (filterAvailableIssues_rev2 issues))
    \<and> (\<not> has_label labels_buddyExchange i \<longrightarrow> i \<notin> set (filterAvailableIssues issues))
    \<and> (has_label labels_buddyExchange i \<and> has_label labels_needsCodechecker i
         \<longrightarrow> i \<in> set (filterAvailableIssues issues))
    \<and> (\<not> has_label labels_needsCodechecker i \<and> \<not> isUnassigned i
         \<longrightarrow> i \<notin> set (filterAvailableIssues issues))
    \<and> (has_label labels_buddyExchange i \<and> isUnassigned i
         \<longrightarrow> i \<in> set (filterAvailableIssues issues))"
  using assms
  by (simp add: filterAvailableIssues_def filterAvailableIssues_rev2_def available_def
      available_rev2_def)

theorem filterAvailableIssues_policy_witness:
  "needs_two \<in> set (filterAvailableIssues_rev2 [needs_two, plain_one, unlabelled])
   \<and> plain_one \<notin> set (filterAvailableIssues_rev2 [needs_two, plain_one, unlabelled])
   \<and> unlabelled \<in> set (filterAvailableIssues_rev2 [needs_two, plain_one, unlabelled])
   \<and> needs_two \<notin> set (filterAvailableIssues [needs_two, plain_one, unlabelled])
   \<and> buddy_needs_two \<in> set (filterAvailableIssues [buddy_needs_two, plain_one, buddy_free])
   \<and> plain_one \<notin> set (filterAvailableIssues [buddy_needs_two, plain_one, buddy_free])
   \<and> buddy_free \<in> set (filterAvailableIssues [buddy_needs_two, plain_one, buddy_free])"
proof -
  have two: "has_label labels_needsCodechecker needs_two
      \<and> assignees needs_two = Some [person ''bob'', person ''carol'']
      \<and> \<not> has_label labels_buddyExchange needs_two"
    by code_simp
  have one: "\<not> has_label labels_needsCodechecker plain_one \<and> \<not> isUnassigned plain_one
      \<and> assignees plain_one = Some [person ''bob'']"
    by code_simp
  have none: "labels unlabelled = [] \<and> isUnassigned unlabelled"
    by code_simp
  have both: "has_label labels_buddyExchange buddy_needs_two
      \<and> has_label labels_needsCodechecker buddy_needs_two
      \<and> assignees buddy_needs_two = Some [person ''bob'', person ''carol'']"
    by code_simp
  have free: "has_label labels_buddyExchange buddy_free \<and> isUnassigned buddy_free"
    by code_simp
  show ?thesis
    using two one none both free
      filterAvailableIssues_policy [of needs_two "[needs_two, plain_one, unlabelled]"]
      filterAvailableIssues_policy [of plain_one "[needs_two, plain_one, unlabelled]"]
      filterAvailableIssues_policy [of unlabelled "[needs_two, plain_one, unlabelled]"]
      filterAvailableIssues_policy [of buddy_needs_two "[buddy_needs_two, plain_one, buddy_free]"]
      filterAvailableIssues_policy [of plain_one "[buddy_needs_two, plain_one, buddy_free]"]
      filterAvailableIssues_policy [of buddy_free "[buddy_needs_two, plain_one, buddy_free]"]
    by simp
qed

text \<open>
  C1 as it is written fails on the revision that requires the "buddy exchange" label: an
  open issue with no labels and no assignees is not in its result.
\<close>

theorem filterAvailableIssues_unlabelled_excluded:
  "labels unlabelled = [] \<and> assignee unlabelled = None \<and> assignees unlabelled = Some []
   \<and> unlabelled \<notin> set (filterAvailableIssues [needs_two, plain_one, unlabelled])"
  by code_simp

section \<open>Properties of the identifier allocation\<close>

lemma first_gap_least:
  "i \<le> last existing + 1 \<Longrightarrow> \<forall>x\<in>set existing. x \<le> last existing \<Longrightarrow>
   i \<le> first_gap i existing \<and> first_gap i existing \<notin> set existing
   \<and> (\<forall>k. i \<le> k \<and> k < first_gap i existing \<longrightarrow> k \<in> set existing)"
proof (induction i existing rule: first_gap.induct)
  case (1 i existing)
  show ?case
  proof (cases "i \<in> set existing")
    case False
    with "1.prems"(1) have "first_gap i existing = i"
      by (subst first_gap.simps) simp
    with False show ?thesis by auto
  next
    case True
    with "1.prems" have le: "i + 1 \<le> last existing + 1" by auto
    have IH: "i + 1 \<le> first_gap (i + 1) existing \<and> first_gap (i + 1) existing \<notin> set existing
      \<and> (\<forall>k. i + 1 \<le> k \<and> k < first_gap (i + 1) existing \<longrightarrow> k \<in> set existing)"
      using "1.IH" "1.prems" True le by simp
    have eq: "first_gap i existing = first_gap (i + 1) existing"
      using True "1.prems"(1) by (subst first_gap.simps) simp
    have "k \<in> set existing" if "i \<le> k" "k < first_gap (i + 1) existing" for k
    proof (cases "k = i")
      case True
      with \<open>i \<in> set existing\<close> show ?thesis by simp
    next
      case False
      with that have "i + 1 \<le> k" by simp
      with IH that show ?thesis by blast
    qed
    with IH show ?thesis unfolding eq by auto
  qed
qed

lemma sorted_last_max:
  "sorted_wrt (<) (U :: int list) \<Longrightarrow> x \<in> set U \<Longrightarrow> x \<le> last U"
proof (induction U)
  case Nil
  then show ?case by simp
next
  case (Cons a U)
  show ?case
  proof (cases "U = []")
    case True
    with Cons.prems show ?thesis by simp
  next
    case False
    then have "last U \<in> set U" by simp
    with Cons.prems(1) have lt: "a < last U" by simp
    from Cons.prems have "x = a \<or> x \<in> set U" by simp
    then show ?thesis
    proof
      assume "x = a"
      with lt False show ?thesis by simp
    next
      assume "x \<in> set U"
      with Cons.IH Cons.prems(1) False show ?thesis by simp
    qed
  qed
qed

lemma sorted_last_Max:
  "sorted_wrt (<) (U :: int list) \<Longrightarrow> U \<noteq> [] \<Longrightarrow> last U = Max (set U)"
  using sorted_last_max [of U] by (intro Max_eqI [symmetric]) auto

lemma calculateNextIdentifier_nonempty:
  assumes "sorted_wrt (<) U" "\<forall>x\<in>set U. 0 < x" "U \<noteq> []"
  shows "1 \<le> calculateNextIdentifier U \<and> calculateNextIdentifier U \<notin> set U
    \<and> (\<forall>k. 1 \<le> k \<and> k < calculateNextIdentifier U \<longrightarrow> k \<in> set U)"
proof -
  from assms have "0 < last U" by simp
  then have "1 \<le> last U + 1" by simp
  moreover have "\<forall>x\<in>set U. x \<le> last U" using assms(1) sorted_last_max by blast
  ultimately show ?thesis
    using first_gap_least [of 1 U] assms(3) by (simp add: calculateNextIdentifier_def)
qed

lemma calculateNextIdentifier_empty: "calculateNextIdentifier [] = 1"
  by (simp add: calculateNextIdentifier_def)

lemma calculateNextIdentifier_free:
  assumes "sorted_wrt (<) U" and "\<forall>x\<in>set U. 0 < x"
  shows "0 < calculateNextIdentifier U" and "calculateNextIdentifier U \<notin> set U"
    and "\<forall>k. 0 < k \<and> k < calculateNextIdentifier U \<longrightarrow> k \<in> set U"
proof -
  have "0 < calculateNextIdentifier U \<and> calculateNextIdentifier U \<notin> set U
    \<and> (\<forall>k. 0 < k \<and> k < calculateNextIdentifier U \<longrightarrow> k \<in> set U)"
  proof (cases "U = []")
    case True
    then show ?thesis by (simp add: calculateNextIdentifier_empty)
  next
    case False
    from calculateNextIdentifier_nonempty [OF assms False] show ?thesis
      by (metis int_one_le_iff_zero_less)
  qed
  then show "0 < calculateNextIdentifier U" and "calculateNextIdentifier U \<notin> set U"
    and "\<forall>k. 0 < k \<and> k < calculateNextIdentifier U \<longrightarrow> k \<in> set U"
    by blast+
qed

lemma calculateNextIdentifier_no_gap:
  assumes "sorted_wrt (<) U" and "\<forall>x\<in>set U. 0 < x" and "U \<noteq> []"
    and all: "\<forall>k. 0 < k \<and> k < Max (set U) + 1 \<longrightarrow> k \<in> set U"
  shows "calculateNextIdentifier U = Max (set U) + 1"
proof -
  let ?r = "calculateNextIdentifier U"
  note main = calculateNextIdentifier_free [OF assms(1,2)]
  have fin: "finite (set U)" and ne: "set U \<noteq> {}" using assms(3) by simp_all
  have "\<not> ?r \<le> Max (set U)"
  proof
    assume "?r \<le> Max (set U)"
    with main(1) have "0 < ?r \<and> ?r < Max (set U) + 1" by simp
    with all have "?r \<in> set U" by blast
    with main(2) show False by simp
  qed
  moreover have "\<not> Max (set U) + 1 < ?r"
  proof
    assume lt: "Max (set U) + 1 < ?r"
    have "Max (set U) \<in> set U" using Max_in [OF fin ne] .
    with assms(2) have "0 < Max (set U) + 1" by auto
    with lt main(3) have "Max (set U) + 1 \<in> set U" by blast
    then have "Max (set U) + 1 \<le> Max (set U)" using Max_ge [OF fin] by blast
    then show False by simp
  qed
  ultimately show ?thesis by linarith
qed

lemma id_issues_titles:
  "map title id_issues = [''Paper one | 2025-001'', ''2025-002'', ''Paper three | 2025-004'']"
  by code_simp

lemma id_issues_next: "calculateNextIdentifier (extractCertificateIdentifiers id_issues) = 3"
  by code_simp

text \<open>
  C5. On a strictly ascending list \<open>U\<close> of positive integers \<^verbatim>\<open>calculateNextIdentifier\<close>
  returns the smallest positive integer that is not in \<open>U\<close>: the result is positive and not
  in \<open>U\<close>, and every smaller positive integer is in \<open>U\<close>. It is 1 for the empty list and
  \<open>max(U) + 1\<close> when \<open>U\<close> has no gap below that; and extraction followed by allocation over
  issues whose titles hold 2025-001, 2025-002 and 2025-004 gives 3.
\<close>

theorem calculateNextIdentifier_smallest_free:
  assumes "sorted_wrt (<) U" and "\<forall>x\<in>set U. 0 < x"
  shows "0 < calculateNextIdentifier U \<and> calculateNextIdentifier U \<notin> set U
    \<and> (\<forall>k. 0 < k \<and> k < calculateNextIdentifier U \<longrightarrow> k \<in> set U)
    \<and> (U = [] \<longrightarrow> calculateNextIdentifier U = 1)
    \<and> (U \<noteq> [] \<and> (\<forall>k. 0 < k \<and> k < Max (set U) + 1 \<longrightarrow> k \<in> set U)
         \<longrightarrow> calculateNextIdentifier U = Max (set U) + 1)
    \<and> map title id_issues = [''Paper one | 2025-001'', ''2025-002'', ''Paper three | 2025-004'']
    \<and> calculateNextIdentifier (extractCertificateIdentifiers id_issues) = 3"
proof (intro conjI impI)
  show "0 < calculateNextIdentifier U" and "calculateNextIdentifier U \<notin> set U"
    and "\<forall>k. 0 < k \<and> k < calculateNextIdentifier U \<longrightarrow> k \<in> set U"
    using calculateNextIdentifier_free [OF assms] by blast+
  show "calculateNextIdentifier U = 1" if "U = []"
    using that calculateNextIdentifier_empty by simp
  show "calculateNextIdentifier U = Max (set U) + 1"
    if "U \<noteq> [] \<and> (\<forall>k. 0 < k \<and> k < Max (set U) + 1 \<longrightarrow> k \<in> set U)"
    using that calculateNextIdentifier_no_gap [OF assms] by blast
  show "map title id_issues = [''Paper one | 2025-001'', ''2025-002'', ''Paper three | 2025-004'']"
    by (rule id_issues_titles)
  show "calculateNextIdentifier (extractCertificateIdentifiers id_issues) = 3"
    by (rule id_issues_next)
qed

theorem calculateNextIdentifier_smallest_free_witness:
  "calculateNextIdentifier [1, 2, 4] = 3 \<and> calculateNextIdentifier [] = 1
   \<and> calculateNextIdentifier [1, 2, 3] = 4"
proof -
  have a: "sorted_wrt (<) [1, 2, 4 :: int]" "\<forall>x\<in>set [1, 2, 4 :: int]. 0 < x" by simp_all
  have b: "sorted_wrt (<) ([] :: int list)" "\<forall>x\<in>set ([] :: int list). 0 < x" by simp_all
  have c: "sorted_wrt (<) [1, 2, 3 :: int]" "\<forall>x\<in>set [1, 2, 3 :: int]. 0 < x" by simp_all
  have mx: "Max (set [1, 2, 3 :: int]) = 3" by simp
  have "\<forall>k :: int. 0 < k \<and> k < 3 + 1 \<longrightarrow> k = 1 \<or> k = 2 \<or> k = 3" by arith
  then have c': "[1, 2, 3 :: int] \<noteq> []
     \<and> (\<forall>k. 0 < k \<and> k < Max (set [1, 2, 3 :: int]) + 1 \<longrightarrow> k \<in> set [1, 2, 3 :: int])"
    unfolding mx by simp
  have a3: "calculateNextIdentifier [1, 2, 4] = 3"
  proof -
    let ?r = "calculateNextIdentifier [1, 2, 4]"
    from calculateNextIdentifier_smallest_free [OF a]
    have r: "0 < ?r" "?r \<notin> set [1, 2, 4]" "\<forall>k. 0 < k \<and> k < ?r \<longrightarrow> k \<in> set [1, 2, 4]"
      by blast+
    have "\<not> 3 < ?r"
    proof
      assume "3 < ?r"
      with r(3) have "(3 :: int) \<in> set [1, 2, 4]" by (metis zero_less_numeral)
      then show False by simp
    qed
    moreover from r(2) have "?r \<noteq> 1 \<and> ?r \<noteq> 2" by simp
    ultimately show ?thesis using r(1) by arith
  qed
  have b1: "calculateNextIdentifier [] = 1"
    using calculateNextIdentifier_smallest_free [OF b] by blast
  have c4: "calculateNextIdentifier [1, 2, 3] = 4"
  proof -
    from calculateNextIdentifier_smallest_free [OF c] c'
    have "calculateNextIdentifier [1, 2, 3] = Max (set [1, 2, 3]) + 1" by blast
    then show ?thesis by simp
  qed
  from a3 b1 c4 show ?thesis by blast
qed

section \<open>Properties of the identifier extraction\<close>

lemma new_Set_acc:
  "distinct acc \<Longrightarrow>
   distinct (foldl (\<lambda>acc x. if x \<in> set acc then acc else acc @ [x]) acc xs)
   \<and> set (foldl (\<lambda>acc x. if x \<in> set acc then acc else acc @ [x]) acc xs) = set acc \<union> set xs"
  by (induction xs arbitrary: acc) auto

lemma distinct_new_Set: "distinct (new_Set xs)"
  using new_Set_acc [of "[]" xs] by (simp add: new_Set_def)

lemma set_new_Set: "set (new_Set xs) = set xs"
  using new_Set_acc [of "[]" xs] by (simp add: new_Set_def)

lemma push_match_range:
  "\<forall>x\<in>set identifiers. 0 < x \<and> x < 10000 \<Longrightarrow>
   \<forall>x\<in>set (push_match identifiers m). 0 < x \<and> x < 10000"
  by (auto simp: push_match_def split: option.splits)

lemma foldl_push_match_range:
  "\<forall>x\<in>set identifiers. 0 < x \<and> x < 10000 \<Longrightarrow>
   \<forall>x\<in>set (foldl push_match identifiers ms). 0 < x \<and> x < 10000"
proof (induction ms arbitrary: identifiers)
  case Nil
  then show ?case by simp
next
  case (Cons m ms)
  from Cons.IH [OF push_match_range [OF Cons.prems]] show ?case by simp
qed

lemma try_patterns_range:
  "\<forall>x\<in>set identifiers. 0 < x \<and> x < 10000 \<Longrightarrow>
   \<forall>x\<in>set (try_patterns ps t identifiers). 0 < x \<and> x < 10000"
proof (induction ps)
  case Nil
  then show ?case by simp
next
  case (Cons p ps)
  then show ?case
    using foldl_push_match_range [of identifiers]
    by (cases "js_match t p") simp_all
qed

lemma titles_range:
  "\<forall>x\<in>set identifiers. 0 < x \<and> x < 10000 \<Longrightarrow>
   \<forall>x\<in>set (foldl (\<lambda>identifiers i. try_patterns patterns (title i) identifiers) identifiers issues).
     0 < x \<and> x < 10000"
proof (induction issues arbitrary: identifiers)
  case Nil
  then show ?case by simp
next
  case (Cons i issues)
  from Cons.IH [OF try_patterns_range [OF Cons.prems]] show ?case by simp
qed

text \<open>
  C10. Whatever the issues, the list \<^verbatim>\<open>extractCertificateIdentifiers\<close> returns is strictly
  increasing, and each of its elements lies strictly between 0 and 10000: it is a list
  \<^verbatim>\<open>calculateNextIdentifier\<close> is meant for.
\<close>

theorem extractCertificateIdentifiers_ascending:
  "sorted_wrt (<) (extractCertificateIdentifiers issues)
   \<and> (\<forall>x\<in>set (extractCertificateIdentifiers issues). 0 < x \<and> x < 10000)"
proof
  show "sorted_wrt (<) (extractCertificateIdentifiers issues)"
    unfolding extractCertificateIdentifiers_def
    by (simp add: strict_sorted_iff distinct_new_Set)
  show "\<forall>x\<in>set (extractCertificateIdentifiers issues). 0 < x \<and> x < 10000"
    using titles_range [of "[]" issues]
    by (simp add: extractCertificateIdentifiers_def set_new_Set)
qed

theorem extractCertificateIdentifiers_ascending_witness:
  "extractCertificateIdentifiers id_issues = [1, 2, 4]
   \<and> sorted_wrt (<) (extractCertificateIdentifiers id_issues)
   \<and> list_all (\<lambda>x. 0 < x \<and> x < 10000) (extractCertificateIdentifiers id_issues)"
proof -
  have "extractCertificateIdentifiers id_issues = [1, 2, 4]" by code_simp
  moreover from extractCertificateIdentifiers_ascending [of id_issues]
  have "sorted_wrt (<) (extractCertificateIdentifiers id_issues)
    \<and> list_all (\<lambda>x. 0 < x \<and> x < 10000) (extractCertificateIdentifiers id_issues)"
    by (simp add: list_all_iff)
  ultimately show ?thesis by blast
qed


subsection \<open>The loop over the patterns and the rule of the specification\<close>

lemma patterns_priority: "patterns = map atoms_of priority"
  by code_simp

lemma match_all_nonempty_iff:
  "match_all p t \<noteq> [] \<longleftrightarrow> (\<exists>k<length t. match_here p (drop k t))"
proof (induction t)
  case Nil
  show ?case by simp
next
  case (Cons c cs)
  show ?case
  proof (cases "match_here p (c # cs)")
    case True
    then have "\<exists>k<length (c # cs). match_here p (drop k (c # cs))"
      by (intro exI [of _ 0]) simp
    with True show ?thesis by simp
  next
    case False
    have "(\<exists>k<length (c # cs). match_here p (drop k (c # cs)))
        \<longleftrightarrow> (\<exists>k<length cs. match_here p (drop k cs))"
    proof
      assume "\<exists>k<length (c # cs). match_here p (drop k (c # cs))"
      then obtain k where k: "k < length (c # cs)" "match_here p (drop k (c # cs))" by blast
      with False obtain j where "k = Suc j" by (cases k) auto
      with k show "\<exists>k<length cs. match_here p (drop k cs)" by auto
    next
      assume "\<exists>k<length cs. match_here p (drop k cs)"
      then obtain k where "k < length cs" "match_here p (drop k cs)" by blast
      then have "Suc k < length (c # cs) \<and> match_here p (drop (Suc k) (c # cs))" by simp
      then show "\<exists>k<length (c # cs). match_here p (drop k (c # cs))" by blast
    qed
    with False Cons.IH show ?thesis by simp
  qed
qed

lemma js_match_Some: "js_match t p = Some ms \<Longrightarrow> ms = match_all p t"
  by (simp add: js_match_def split: list.splits)

lemma js_match_None: "js_match t p = None \<longleftrightarrow> match_all p t = []"
  by (simp add: js_match_def split: list.splits)

subsection \<open>A pattern of the code matches where the pattern of the rule fits\<close>

lemma match_here_digits:
  "match_here (replicate n Digit @ p) s
     \<longleftrightarrow> n \<le> length s \<and> list_all is_digit (take n s) \<and> match_here p (drop n s)"
proof (induction n arbitrary: s)
  case 0
  show ?case by simp
next
  case (Suc n)
  show ?case by (cases s) (auto simp: Suc atom_matches_def)
qed

lemma match_here_dash:
  "match_here (Dash # p) s \<longleftrightarrow> take 1 s = ''-'' \<and> match_here p (drop 1 s)"
  by (cases s) (auto simp: atom_matches_def)

lemma match_here_nil_iff: "match_here [] s"
  by simp

lemma match_here_fits:
  "match_here (atoms_of sp) s \<longleftrightarrow> fits sp (take (width sp) s)"
proof (cases sp)
  case (Bare n)
  have "match_here (replicate n Digit @ []) s
      \<longleftrightarrow> n \<le> length s \<and> list_all is_digit (take n s) \<and> match_here [] (drop n s)"
    by (rule match_here_digits)
  with Bare show ?thesis by (auto simp: atoms_of_def fits_def width_def)
next
  case (YearDash n)
  have code: "match_here (replicate 4 Digit @ Dash # replicate n Digit @ []) s
      \<longleftrightarrow> 4 \<le> length s \<and> list_all is_digit (take 4 s) \<and> take 1 (drop 4 s) = ''-''
        \<and> n \<le> length (drop 1 (drop 4 s)) \<and> list_all is_digit (take n (drop 1 (drop 4 s)))"
    by (simp only: match_here_digits match_here_dash match_here_nil_iff simp_thms)
  have five: "5 \<le> length s" if "take 1 (drop 4 s) = ''-''"
  proof -
    from that have "drop 4 s \<noteq> []" by auto
    then have "0 < length (drop 4 s)" by simp
    then show ?thesis by simp
  qed
  have d5: "drop 1 (drop 4 s) = drop 5 s" by simp
  have r1: "length (take (5 + n) s) = 5 + n \<longleftrightarrow> 5 + n \<le> length s" by auto
  have r2: "take 4 (take (5 + n) s) = take 4 s" by (simp add: min_def)
  have r3: "take 1 (drop 4 (take (5 + n) s)) = take 1 (drop 4 s)"
    by (simp add: drop_take min_def)
  have r4: "drop 5 (take (5 + n) s) = take n (drop 5 s)" by (simp add: drop_take)
  have rule: "fits (YearDash n) (take (5 + n) s)
      \<longleftrightarrow> 5 + n \<le> length s \<and> list_all is_digit (take 4 s) \<and> take 1 (drop 4 s) = ''-''
        \<and> list_all is_digit (take n (drop 5 s))"
    unfolding fits_def spec_pattern.case r1 r2 r3 r4 ..
  have len: "n \<le> length (drop 5 s) \<longleftrightarrow> 5 + n \<le> length s" if "5 \<le> length s"
    using that by auto
  have "match_here (replicate 4 Digit @ Dash # replicate n Digit @ []) s
      \<longleftrightarrow> fits (YearDash n) (take (5 + n) s)"
    unfolding code rule d5 using five len by auto
  with YearDash show ?thesis by (simp add: atoms_of_def width_def)
qed

subsection \<open>The matches of the code are the leftmost disjoint occurrences\<close>

lemma leftmost_disjoint_shift:
  "leftmost_disjoint w (map ((+) n) ks) = map ((+) n) (leftmost_disjoint w ks)"
proof (induction w ks rule: leftmost_disjoint.induct)
  case (1 w)
  show ?case by simp
next
  case (2 w k ks)
  have "filter (\<lambda>j. n + k + w \<le> j) (map ((+) n) ks)
      = map ((+) n) (filter (\<lambda>j. k + w \<le> j) ks)"
    by (simp add: filter_map comp_def)
  with 2 show ?case by simp
qed

lemma hits_Cons:
  "hits p (c # cs) = (if match_here p (c # cs) then [0] else []) @ map Suc (hits p cs)"
proof -
  have "[0..<Suc (length cs)] = 0 # [Suc 0..<Suc (length cs)]"
    by (rule upt_conv_Cons) simp
  also have "[Suc 0..<Suc (length cs)] = map Suc [0..<length cs]"
    by (rule map_Suc_upt [symmetric])
  finally have "[0..<length (c # cs)] = 0 # map Suc [0..<length cs]" by simp
  then show ?thesis by (simp add: hits_def filter_map comp_def)
qed

lemma hits_from: "filter (\<lambda>j. n \<le> j) (hits p t) = map ((+) n) (hits p (drop n t))"
proof (induction n arbitrary: t)
  case 0
  show ?case by simp
next
  case (Suc n)
  show ?case
  proof (cases t)
    case Nil
    then show ?thesis by (simp add: hits_def)
  next
    case (Cons c cs)
    have "filter (\<lambda>j. Suc n \<le> j) (map Suc (hits p cs))
        = map Suc (filter (\<lambda>j. n \<le> j) (hits p cs))"
      by (simp add: filter_map comp_def)
    with Suc [of cs] Cons show ?thesis by (simp add: hits_Cons)
  qed
qed

lemma match_all_hits:
  assumes "p \<noteq> []"
  shows "match_all p t
    = map (\<lambda>k. take (length p) (drop k t)) (leftmost_disjoint (length p) (hits p t))"
  using assms
proof (induction p t rule: match_all.induct)
  case (1 p)
  show ?case by (simp add: hits_def)
next
  case (2 p c cs)
  let ?w = "length p"
  from "2.prems" have w: "?w = Suc (?w - 1)" by (cases p) simp_all
  show ?case
  proof (cases "match_here p (c # cs)")
    case True
    have "filter (\<lambda>j. 0 + ?w \<le> j) (map Suc (hits p cs))
        = map Suc (filter (\<lambda>j. ?w - 1 \<le> j) (hits p cs))"
      using w by (auto simp: filter_map comp_def intro: filter_cong)
    also have "\<dots> = map Suc (map ((+) (?w - 1)) (hits p (drop (?w - 1) cs)))"
      by (simp add: hits_from)
    also have "\<dots> = map ((+) ?w) (hits p (drop (?w - 1) cs))"
      using w by (metis (no_types, lifting) add_Suc map_map comp_def map_eq_conv)
    finally have rest: "filter (\<lambda>j. 0 + ?w \<le> j) (map Suc (hits p cs))
        = map ((+) ?w) (hits p (drop (?w - 1) cs))" .
    have dr: "drop (?w + k) (c # cs) = drop k (drop (?w - 1) cs)" for k
    proof -
      from w obtain m where m: "?w = Suc m" "?w - 1 = m" by simp
      have "drop (Suc m + k) (c # cs) = drop (k + m) cs" by (simp add: add.commute)
      then show ?thesis unfolding m by simp
    qed
    from True "2.IH"(1) "2.prems"
    have "match_all p (c # cs) = take ?w (c # cs)
        # map (\<lambda>k. take ?w (drop k (drop (?w - 1) cs)))
            (leftmost_disjoint ?w (hits p (drop (?w - 1) cs)))"
      by simp
    moreover have "map (\<lambda>k. take ?w (drop k (c # cs))) (leftmost_disjoint ?w (hits p (c # cs)))
        = take ?w (c # cs)
        # map (\<lambda>k. take ?w (drop k (drop (?w - 1) cs)))
            (leftmost_disjoint ?w (hits p (drop (?w - 1) cs)))"
    proof -
      have "hits p (c # cs) = 0 # map Suc (hits p cs)" using True by (simp add: hits_Cons)
      then have "leftmost_disjoint ?w (hits p (c # cs))
          = 0 # leftmost_disjoint ?w (filter (\<lambda>j. 0 + ?w \<le> j) (map Suc (hits p cs)))"
        by (simp only: leftmost_disjoint.simps)
      also have "\<dots> = 0 # map ((+) ?w) (leftmost_disjoint ?w (hits p (drop (?w - 1) cs)))"
        by (simp only: rest leftmost_disjoint_shift)
      finally have "map (\<lambda>k. take ?w (drop k (c # cs))) (leftmost_disjoint ?w (hits p (c # cs)))
          = take ?w (drop 0 (c # cs))
          # map (\<lambda>k. take ?w (drop (?w + k) (c # cs)))
              (leftmost_disjoint ?w (hits p (drop (?w - 1) cs)))"
        by (simp add: comp_def del: drop_Suc_Cons)
      then show ?thesis by (simp only: dr drop_0)
    qed
    ultimately show ?thesis by simp
  next
    case False
    have suc: "Suc = (+) 1" by (simp add: fun_eq_iff)
    have "leftmost_disjoint ?w (map Suc (hits p cs))
        = map Suc (leftmost_disjoint ?w (hits p cs))"
      unfolding suc by (rule leftmost_disjoint_shift)
    with False "2.IH"(2) "2.prems" show ?thesis
      by (simp add: hits_Cons comp_def)
  qed
qed

lemma set_leftmost_disjoint: "set (leftmost_disjoint w ks) \<subseteq> set ks"
  by (induction w ks rule: leftmost_disjoint.induct) auto

lemma hits_occurrences: "hits (atoms_of sp) t = occurrences sp t"
  by (simp add: hits_def occurrences_def match_here_fits)

lemma length_atoms_of: "length (atoms_of sp) = width sp"
  by (cases sp) (simp_all add: atoms_of_def width_def)

lemma match_all_every_match:
  assumes "0 < width sp"
  shows "match_all (atoms_of sp) t = every_match sp t"
proof -
  from assms have "atoms_of sp \<noteq> []" using length_atoms_of [of sp] by auto
  from match_all_hits [OF this, of t] show ?thesis
    by (simp add: every_match_def hits_occurrences length_atoms_of)
qed

lemma js_match_None_iff: "js_match t (atoms_of sp) = None \<longleftrightarrow> occurrences sp t = []"
proof -
  have "match_all (atoms_of sp) t \<noteq> [] \<longleftrightarrow> hits (atoms_of sp) t \<noteq> []"
    unfolding match_all_nonempty_iff by (auto simp: hits_def filter_empty_conv)
  then show ?thesis by (simp add: js_match_None hits_occurrences)
qed

lemma every_match_fits: "m \<in> set (every_match sp t) \<Longrightarrow> fits sp m"
  using set_leftmost_disjoint [of "width sp" "occurrences sp t"]
  by (auto simp: every_match_def occurrences_def)

subsection \<open>The number of a match\<close>

lemma dash_no_digit [simp]: "\<not> is_digit CHR ''-''"
  by (simp add: is_digit_def)

lemma digits_no_dash: "list_all is_digit xs \<Longrightarrow> CHR ''-'' \<notin> set xs"
  by (auto simp: list_all_iff)

lemma split_dash_plain: "CHR ''-'' \<notin> set xs \<Longrightarrow> split_dash xs = [xs]"
  by (induction xs) auto

lemma split_dash_append:
  "CHR ''-'' \<notin> set xs \<Longrightarrow> split_dash (xs @ CHR ''-'' # ys) = xs # split_dash ys"
  by (induction xs) auto

lemma parseInt_digits:
  "list_all is_digit ds \<Longrightarrow> ds \<noteq> [] \<Longrightarrow> parseInt (Some ds) = Some (decimal ds)"
proof -
  assume "list_all is_digit ds" and "ds \<noteq> []"
  then have tw: "takeWhile is_digit ds = ds" by (simp add: list_all_iff)
  show ?thesis
    unfolding parseInt_def Let_def option.case tw using \<open>ds \<noteq> []\<close> by simp
qed

lemma match_number_identifier:
  assumes "fits sp m" and "has_digits sp"
  shows "match_number m = Some (identifier_of sp m)"
proof (cases sp)
  case (Bare n)
  with assms have d: "list_all is_digit m" "m \<noteq> []"
    by (auto simp: fits_def has_digits_def)
  from d(1) have "CHR ''-'' \<notin> set m" by (rule digits_no_dash)
  with parseInt_digits [OF d] Bare show ?thesis
    by (simp add: match_number_def identifier_of_def)
next
  case (YearDash n)
  with assms have f: "length m = 5 + n" "list_all is_digit (take 4 m)"
    "take 1 (drop 4 m) = ''-''" "list_all is_digit (drop 5 m)" "0 < n"
    by (auto simp: fits_def has_digits_def)
  from f(3) have "drop 4 m = CHR ''-'' # drop 1 (drop 4 m)"
    by (cases "drop 4 m") simp_all
  then have d4: "drop 4 m = CHR ''-'' # drop 5 m" by simp
  have "m = take 4 m @ drop 4 m" by simp
  with d4 have m: "m = take 4 m @ CHR ''-'' # drop 5 m" by simp
  then have dash: "CHR ''-'' \<in> set m" by (metis in_set_conv_decomp)
  from f(1,5) have ne: "drop 5 m \<noteq> []" by auto
  have "split_dash m = take 4 m # split_dash (drop 5 m)"
    using split_dash_append [OF digits_no_dash [OF f(2)], of "drop 5 m"] m by simp
  also have "split_dash (drop 5 m) = [drop 5 m]"
    by (rule split_dash_plain [OF digits_no_dash [OF f(4)]])
  finally have "at_index (split_dash m) 1 = Some (drop 5 m)" by (simp add: at_index_def)
  with dash parseInt_digits [OF f(4) ne] YearDash show ?thesis
    by (simp add: match_number_def identifier_of_def)
qed

lemma foldl_push_match_spec:
  "\<forall>m\<in>set ms. match_number m = Some (f m) \<Longrightarrow>
   foldl push_match identifiers ms = identifiers @ filter in_range (map f ms)"
  by (induction ms arbitrary: identifiers) (auto simp: push_match_def in_range_def)

lemma try_patterns_spec:
  assumes "\<forall>sp\<in>set sps. has_digits sp"
  shows "try_patterns (map atoms_of sps) t identifiers =
     identifiers @ (case find (\<lambda>sp. occurrences sp t \<noteq> []) sps of
        None \<Rightarrow> []
      | Some sp \<Rightarrow> filter in_range (map (identifier_of sp) (every_match sp t)))"
  using assms
proof (induction sps)
  case Nil
  show ?case by simp
next
  case (Cons sp sps)
  then have digits: "has_digits sp" by simp
  then have w: "0 < width sp" by (cases sp) (simp_all add: has_digits_def width_def)
  show ?case
  proof (cases "js_match t (atoms_of sp)")
    case None
    with Cons js_match_None_iff [of t sp] show ?thesis by simp
  next
    case (Some ms)
    then have ms: "ms = every_match sp t"
      using js_match_Some [of t "atoms_of sp" ms] match_all_every_match [OF w, of t] by simp
    from Some have occ: "occurrences sp t \<noteq> []"
      using js_match_None_iff [of t sp] by simp
    have "\<forall>m\<in>set ms. match_number m = Some (identifier_of sp m)"
      using ms every_match_fits [of _ sp t] match_number_identifier [OF _ digits] by blast
    from foldl_push_match_spec [OF this] Some occ ms show ?thesis by simp
  qed
qed

lemma priority_digits: "\<forall>sp\<in>set priority. has_digits sp"
  by (simp add: priority_def has_digits_def)

text \<open>
  C6. For every title the loop over the patterns pushes exactly what the rule of the
  specification gives: the patterns are tried in the order year-dash-3, year-dash-2,
  year-dash-1, bare 3, bare 2, bare 1 digits; the first that matches anywhere in the title
  supplies every one of its matches and no later pattern is tried; a dashed match counts
  as the digits behind its dash, a bare match as its digits; a number that is not strictly
  between 0 and 10000 is dropped. The whole extraction is the sorted, duplicate-free
  union of that over the titles.
\<close>

theorem try_patterns_first_pattern_wins:
  "try_patterns patterns t identifiers = identifiers @ spec_extract t
   \<and> extractCertificateIdentifiers issues
       = sort (new_Set (concat (map (\<lambda>i. spec_extract (title i)) issues)))"
proof
  show one: "try_patterns patterns t identifiers = identifiers @ spec_extract t"
    for t identifiers
    using try_patterns_spec [OF priority_digits, of t identifiers]
    by (simp add: spec_extract_def patterns_priority)
  have "foldl (\<lambda>identifiers i. try_patterns patterns (title i) identifiers) acc issues
      = acc @ concat (map (\<lambda>i. spec_extract (title i)) issues)" for acc
    by (induction issues arbitrary: acc) (simp_all add: one)
  from this [of "[]"]
  show "extractCertificateIdentifiers issues
       = sort (new_Set (concat (map (\<lambda>i. spec_extract (title i)) issues)))"
    by (simp add: extractCertificateIdentifiers_def)
qed

theorem try_patterns_first_pattern_wins_witness:
  "try_patterns patterns ''Codecheck 007 of 2024-12 and 2023-045, 2022-046'' [3] = [3, 45, 46]
   \<and> try_patterns patterns ''Report 2024-12 and 2023-3, 456'' [] = [12]
   \<and> try_patterns patterns ''2025-7 and 2024-9, review 123'' [] = [7, 9]
   \<and> try_patterns patterns ''Paper 12345678 with 99 figures'' [] = [123, 456]
   \<and> try_patterns patterns ''Paper 42 and 7, then 13'' [] = [42, 13]
   \<and> try_patterns patterns ''Part 7 of 9'' [] = [7, 9]
   \<and> try_patterns patterns ''Review 12345 for 2024-1, 2024-000'' [] = []
   \<and> try_patterns patterns ''No number'' [9] = [9]"
proof -
  have "spec_extract ''Codecheck 007 of 2024-12 and 2023-045, 2022-046'' = [45, 46]"
    by code_simp
  moreover have "spec_extract ''Report 2024-12 and 2023-3, 456'' = [12]" by code_simp
  moreover have "spec_extract ''2025-7 and 2024-9, review 123'' = [7, 9]" by code_simp
  moreover have "spec_extract ''Paper 12345678 with 99 figures'' = [123, 456]" by code_simp
  moreover have "spec_extract ''Paper 42 and 7, then 13'' = [42, 13]" by code_simp
  moreover have "spec_extract ''Part 7 of 9'' = [7, 9]" by code_simp
  moreover have "spec_extract ''Review 12345 for 2024-1, 2024-000'' = []" by code_simp
  moreover have "spec_extract ''No number'' = []" by code_simp
  ultimately show ?thesis
    using
      try_patterns_first_pattern_wins
        [of "''Codecheck 007 of 2024-12 and 2023-045, 2022-046''" "[3]" "[]"]
      try_patterns_first_pattern_wins [of "''Report 2024-12 and 2023-3, 456''" "[]" "[]"]
      try_patterns_first_pattern_wins [of "''2025-7 and 2024-9, review 123''" "[]" "[]"]
      try_patterns_first_pattern_wins [of "''Paper 12345678 with 99 figures''" "[]" "[]"]
      try_patterns_first_pattern_wins [of "''Paper 42 and 7, then 13''" "[]" "[]"]
      try_patterns_first_pattern_wins [of "''Part 7 of 9''" "[]" "[]"]
      try_patterns_first_pattern_wins [of "''Review 12345 for 2024-1, 2024-000''" "[]" "[]"]
      try_patterns_first_pattern_wins [of "''No number''" "[9]" "[]"]
    by simp
qed

section \<open>Properties of the paginated fetch\<close>

lemma fetch_loop_log:
  "fetch_loop net query perPage maxPages page allIssues sent0 = (sent, res) \<Longrightarrow>
   \<exists>ps. sent = sent0 @ map query ps \<and> ps = [page..page + int (length ps) - 1]
     \<and> (\<forall>p\<in>set ps. p \<le> maxPages)
     \<and> (\<forall>p\<in>set (butlast ps). full_page net perPage (query p))
     \<and> (\<forall>p\<in>set ps. \<forall>r. net (query p) = Resolved r \<and> \<not> ok r
           \<longrightarrow> res = Inl (ApiError (status r) (statusText r)))
     \<and> (\<forall>xs. res = Inr xs \<longrightarrow>
           xs = allIssues @ concat (map (\<lambda>p. page_issues net (query p)) ps)
           \<and> (\<forall>p\<in>set ps. answered_ok net (query p)))"
proof (induction net query perPage maxPages page allIssues sent0 rule: fetch_loop.induct)
  case (1 net query perPage maxPages page allIssues sent0)
  show ?case
  proof (cases "page \<le> maxPages")
    case False
    with "1.prems" have "sent = sent0 \<and> res = Inr allIssues"
      by (subst (asm) fetch_loop.simps) auto
    then show ?thesis by (intro exI [of _ "[]"]) simp
  next
    case le: True
    show ?thesis
    proof (cases "full_page net perPage (query page)")
      case False
      with le "1.prems" have s: "sent = sent0 @ [query page]"
        by (subst (asm) fetch_loop.simps)
          (auto simp: full_page_def split: outcome.splits if_splits)
      from False le "1.prems"
      have r: "res = (case net (query page) of
            Rejected \<Rightarrow> Inl FetchRejected
          | Resolved r \<Rightarrow>
              if \<not> ok r then Inl (ApiError (status r) (statusText r))
              else Inr (allIssues @ json r))"
        by (subst (asm) fetch_loop.simps)
          (auto simp: full_page_def split: outcome.splits if_splits)
      show ?thesis
        using s r le
        by (intro exI [of _ "[page]"])
          (auto simp: page_issues_def answered_ok_def split: outcome.splits if_splits)
    next
      case True
      then obtain r where r: "net (query page) = Resolved r" "ok r" "length (json r) \<noteq> 0"
        "\<not> int (length (json r)) < perPage"
        by (auto simp: full_page_def split: outcome.splits)
      with le "1.prems"
      have rec: "fetch_loop net query perPage maxPages (page + 1) (allIssues @ json r)
          (sent0 @ [query page]) = (sent, res)"
        by (subst (asm) fetch_loop.simps) simp
      from "1.IH" [OF le r(1) _ _ _ rec] r
      obtain ps where ps: "sent = (sent0 @ [query page]) @ map query ps"
        "ps = [page + 1..page + 1 + int (length ps) - 1]"
        "\<forall>p\<in>set ps. p \<le> maxPages"
        "\<forall>p\<in>set (butlast ps). full_page net perPage (query p)"
        "\<forall>p\<in>set ps. \<forall>r. net (query p) = Resolved r \<and> \<not> ok r
           \<longrightarrow> res = Inl (ApiError (status r) (statusText r))"
        "\<forall>xs. res = Inr xs \<longrightarrow>
           xs = (allIssues @ json r) @ concat (map (\<lambda>p. page_issues net (query p)) ps)
           \<and> (\<forall>p\<in>set ps. answered_ok net (query p))"
        by auto
      have up: "page # ps = [page..page + int (length (page # ps)) - 1]"
        using ps(2) by (subst upto_rec1) (simp_all add: add.commute add.left_commute)
      show ?thesis
      proof (intro exI [of _ "page # ps"] conjI)
        show "sent = sent0 @ map query (page # ps)" using ps(1) by simp
        show "page # ps = [page..page + int (length (page # ps)) - 1]" by (rule up)
        show "\<forall>p\<in>set (page # ps). p \<le> maxPages" using ps(3) le by simp
        show "\<forall>p\<in>set (butlast (page # ps)). full_page net perPage (query p)"
          using ps(4) True by simp
        show "\<forall>p\<in>set (page # ps). \<forall>r. net (query p) = Resolved r \<and> \<not> ok r
           \<longrightarrow> res = Inl (ApiError (status r) (statusText r))"
          using ps(5) r by auto
        show "\<forall>xs. res = Inr xs \<longrightarrow>
           xs = allIssues @ concat (map (\<lambda>p. page_issues net (query p)) (page # ps))
           \<and> (\<forall>p\<in>set (page # ps). answered_ok net (query p))"
          using ps(6) r by (auto simp: page_issues_def answered_ok_def)
      qed
    qed
  qed
qed


lemma upto_length_bound:
  assumes "ps = [1..int (length ps)]" and "\<forall>p\<in>set ps. p \<le> maxPages"
  shows "int (length ps) \<le> max 0 maxPages"
proof (cases "ps = []")
  case True
  then show ?thesis by simp
next
  case False
  then have "1 \<le> int (length ps)" by (cases ps) simp_all
  then have "int (length ps) \<in> set [1..int (length ps)]" by simp
  with assms have "int (length ps) \<le> maxPages" by simp
  then show ?thesis by simp
qed

lemma fetch_loop_from_1:
  assumes "\<And>p. q_page (query p) = p"
  shows "let sent = fst (fetch_loop net query perPage maxPages 1 [] []) in
      map q_page sent = [1..int (length sent)]
    \<and> (\<forall>q\<in>set sent. q_page q \<le> maxPages)
    \<and> int (length sent) \<le> max 0 maxPages
    \<and> (\<forall>j r. j < length sent \<and> net (sent ! j) = Resolved r
          \<and> (length (json r) = 0 \<or> int (length (json r)) < perPage)
        \<longrightarrow> Suc j = length sent)"
proof -
  obtain sent res where run: "fetch_loop net query perPage maxPages 1 [] [] = (sent, res)"
    by (cases "fetch_loop net query perPage maxPages 1 [] []")
  from fetch_loop_log [OF run]
  obtain ps where ps: "sent = map query ps" "ps = [1..1 + int (length ps) - 1]"
    "\<forall>p\<in>set ps. p \<le> maxPages" "\<forall>p\<in>set (butlast ps). full_page net perPage (query p)"
    by auto
  from ps(2) have up: "ps = [1..int (length ps)]" by simp
  have pages: "map q_page sent = ps" using ps(1) assms by (simp add: map_idI)
  have len: "length sent = length ps" using ps(1) by simp
  have a: "map q_page sent = [1..int (length sent)]" using pages up len by simp
  have b: "\<forall>q\<in>set sent. q_page q \<le> maxPages" using ps(1,3) assms by simp
  have c: "int (length sent) \<le> max 0 maxPages"
    using upto_length_bound [OF up ps(3)] len by simp
  have d: "Suc j = length sent"
    if j: "j < length sent" and r: "net (sent ! j) = Resolved r"
      and short: "length (json r) = 0 \<or> int (length (json r)) < perPage" for j r
  proof (rule ccontr)
    assume "Suc j \<noteq> length sent"
    with j len have "j < length (butlast ps)" by simp
    then have "butlast ps ! j \<in> set (butlast ps)" by (rule nth_mem)
    moreover have "butlast ps ! j = ps ! j" using \<open>j < length (butlast ps)\<close> by (simp add: nth_butlast)
    ultimately have "full_page net perPage (query (ps ! j))" using ps(4) by simp
    moreover have "sent ! j = query (ps ! j)" using ps(1) j len by simp
    ultimately show False using r short by (auto simp: full_page_def)
  qed
  from a b c d show ?thesis unfolding run by (simp add: Let_def) blast
qed

lemma fetch_loop_stop:
  assumes "page \<le> maxPages" and "\<not> full_page net perPage (query page)"
  shows "fetch_loop net query perPage maxPages page allIssues sent0
    = (sent0 @ [query page], last_answer (net (query page)) allIssues)"
  using assms
  by (subst fetch_loop.simps)
    (auto simp: full_page_def last_answer_def split: outcome.splits)

lemma fetch_loop_go:
  assumes "page \<le> maxPages" and "full_page net perPage (query page)"
  shows "fetch_loop net query perPage maxPages page allIssues sent0
    = fetch_loop net query perPage maxPages (page + 1)
        (allIssues @ page_issues net (query page)) (sent0 @ [query page])"
  using assms
  by (subst fetch_loop.simps)
    (auto simp: full_page_def page_issues_def split: outcome.splits)

lemma fetch_loop_end:
  assumes "\<not> page \<le> maxPages"
  shows "fetch_loop net query perPage maxPages page allIssues sent0 = (sent0, Inr allIssues)"
  using assms by (subst fetch_loop.simps) simp

lemma fetch_loop_exact:
  assumes "n = nat (k - page)" and "page \<le> k" and "k \<le> maxPages"
    and "\<forall>p. page \<le> p \<and> p < k \<longrightarrow> full_page net perPage (query p)"
    and "\<not> full_page net perPage (query k)"
  shows "fetch_loop net query perPage maxPages page allIssues sent0
    = (sent0 @ map query [page..k],
       last_answer (net (query k))
         (allIssues @ concat (map (\<lambda>p. page_issues net (query p)) [page..k - 1])))"
  using assms
proof (induction n arbitrary: page allIssues sent0)
  case 0
  then have "page = k" by simp
  with 0 fetch_loop_stop [of k maxPages net perPage query allIssues sent0]
  show ?case by simp
next
  case (Suc n)
  then have lt: "page < k" by simp
  with Suc.prems have full: "full_page net perPage (query page)" by simp
  from lt Suc.prems have le: "page \<le> maxPages" by simp
  have "fetch_loop net query perPage maxPages (page + 1)
        (allIssues @ page_issues net (query page)) (sent0 @ [query page])
    = ((sent0 @ [query page]) @ map query [page + 1..k],
       last_answer (net (query k))
         ((allIssues @ page_issues net (query page))
          @ concat (map (\<lambda>p. page_issues net (query p)) [page + 1..k - 1])))"
    using Suc.prems lt by (intro Suc.IH) auto
  moreover have "[page..k] = page # [page + 1..k]" using lt by (simp add: upto_rec1)
  moreover have "[page..k - 1] = page # [page + 1..k - 1]" using lt by (simp add: upto_rec1)
  ultimately show ?case using fetch_loop_go [of page maxPages net perPage query allIssues sent0] le full by simp
qed

lemma fetch_loop_all_full:
  assumes "n = nat (maxPages + 1 - page)"
    and "\<forall>p. page \<le> p \<and> p \<le> maxPages \<longrightarrow> full_page net perPage (query p)"
  shows "fetch_loop net query perPage maxPages page allIssues sent0
    = (sent0 @ map query [page..maxPages],
       Inr (allIssues @ concat (map (\<lambda>p. page_issues net (query p)) [page..maxPages])))"
  using assms
proof (induction n arbitrary: page allIssues sent0)
  case 0
  then have "\<not> page \<le> maxPages" by simp
  then show ?case by (simp add: fetch_loop_end)
next
  case (Suc n)
  then have le: "page \<le> maxPages" by simp
  with Suc.prems have full: "full_page net perPage (query page)" by simp
  have "fetch_loop net query perPage maxPages (page + 1)
        (allIssues @ page_issues net (query page)) (sent0 @ [query page])
    = ((sent0 @ [query page]) @ map query [page + 1..maxPages],
       Inr ((allIssues @ page_issues net (query page))
          @ concat (map (\<lambda>p. page_issues net (query p)) [page + 1..maxPages])))"
    using Suc.prems by (intro Suc.IH) auto
  moreover have "[page..maxPages] = page # [page + 1..maxPages]" using le by (simp add: upto_rec1)
  ultimately show ?case using fetch_loop_go [of page maxPages net perPage query allIssues sent0] le full by simp
qed

lemma fetch_loop_live:
  assumes "n = nat (maxPages + 1 - page)"
  shows "\<exists>ps. fst (fetch_loop net query perPage maxPages page allIssues sent0) = sent0 @ map query ps
     \<and> (page \<le> maxPages \<longrightarrow> ps \<noteq> [])
     \<and> (ps \<noteq> [] \<and> full_page net perPage (query (last ps)) \<longrightarrow> last ps = maxPages)"
  using assms
proof (induction n arbitrary: page allIssues sent0)
  case 0
  then have "\<not> page \<le> maxPages" by simp
  then show ?case by (intro exI [of _ "[]"]) (simp add: fetch_loop_end)
next
  case (Suc n)
  then have le: "page \<le> maxPages" by simp
  show ?case
  proof (cases "full_page net perPage (query page)")
    case False
    with le show ?thesis by (intro exI [of _ "[page]"]) (simp add: fetch_loop_stop)
  next
    case True
    from Suc.prems have "n = nat (maxPages + 1 - (page + 1))" by simp
    from Suc.IH [OF this, of "allIssues @ page_issues net (query page)" "sent0 @ [query page]"]
    obtain ps where ps:
      "fst (fetch_loop net query perPage maxPages (page + 1)
          (allIssues @ page_issues net (query page)) (sent0 @ [query page]))
        = (sent0 @ [query page]) @ map query ps"
      "page + 1 \<le> maxPages \<longrightarrow> ps \<noteq> []"
      "ps \<noteq> [] \<and> full_page net perPage (query (last ps)) \<longrightarrow> last ps = maxPages"
      by blast
    have go: "fetch_loop net query perPage maxPages page allIssues sent0
      = fetch_loop net query perPage maxPages (page + 1)
          (allIssues @ page_issues net (query page)) (sent0 @ [query page])"
      using fetch_loop_go [of page maxPages net perPage query allIssues sent0] le True by simp
    show ?thesis
    proof (intro exI [of _ "page # ps"] conjI impI)
      show "fst (fetch_loop net query perPage maxPages page allIssues sent0)
          = sent0 @ map query (page # ps)"
        using go ps(1) by simp
      show "page # ps \<noteq> []" by simp
      assume a: "page # ps \<noteq> [] \<and> full_page net perPage (query (last (page # ps)))"
      show "last (page # ps) = maxPages"
      proof (cases "ps = []")
        case True
        with ps(2) le show ?thesis by simp
      next
        case False
        with a ps(3) show ?thesis by simp
      qed
    qed
  qed
qed

lemma fetch_loop_from_1_live:
  assumes "\<And>p. q_page (query p) = p"
  shows "let sent = fst (fetch_loop net query perPage maxPages 1 [] []) in
      (1 \<le> maxPages \<longrightarrow> sent \<noteq> [])
    \<and> (\<forall>j. j < length sent \<and> full_page net perPage (sent ! j) \<and> q_page (sent ! j) < maxPages
        \<longrightarrow> Suc j < length sent)"
proof -
  from fetch_loop_live [OF refl, of net query perPage maxPages 1 "[]" "[]"]
  obtain ps where ps: "fst (fetch_loop net query perPage maxPages 1 [] []) = map query ps"
    "1 \<le> maxPages \<longrightarrow> ps \<noteq> []"
    "ps \<noteq> [] \<and> full_page net perPage (query (last ps)) \<longrightarrow> last ps = maxPages"
    by auto
  have b: "Suc j < length ps"
    if j: "j < length ps" and full: "full_page net perPage (map query ps ! j)"
      and lt: "q_page (map query ps ! j) < maxPages" for j
  proof (rule ccontr)
    assume "\<not> Suc j < length ps"
    with j have "Suc j = length ps" by simp
    then have "ps \<noteq> [] \<and> j = length ps - 1" by auto
    then have "ps ! j = last ps" by (simp add: last_conv_nth)
    with j full lt assms ps(3) show False by auto
  qed
  have "\<forall>j. j < length ps \<and> full_page net perPage (map query ps ! j)
        \<and> q_page (map query ps ! j) < maxPages \<longrightarrow> Suc j < length ps"
    using b by blast
  with ps(1,2) show ?thesis by (simp add: Let_def)
qed

text \<open>
  C9. \<^verbatim>\<open>fetchAllIssues\<close> returns for every network (the loop is a total function). The
  requests it makes are for the pages 1, 2, ... in this order, none beyond \<^verbatim>\<open>maxPages\<close>, so
  at most \<^verbatim>\<open>maxPages\<close> of them, and a request answered by an empty page or by a page of
  fewer than \<^verbatim>\<open>perPage\<close> issues is the last one. Page 1 is requested whenever \<^verbatim>\<open>maxPages\<close>
  is at least 1, and a full page below \<^verbatim>\<open>maxPages\<close> is followed by the request for the next
  page. So when the pages before page \<open>k\<close> are full and page \<open>k\<close> is not (it is empty, say),
  the requests are exactly those for the pages 1 to \<open>k\<close>, and the caller receives the issues
  of these pages; when all pages up to \<^verbatim>\<open>maxPages\<close> are full, the requests are those for the
  pages 1 to \<^verbatim>\<open>maxPages\<close>.
\<close>

theorem fetchAllIssues_pagination:
  "let sent = fst (fetchAllIssues_run net perPage maxPages) in
      map q_page sent = [1..int (length sent)]
    \<and> (\<forall>q\<in>set sent. q_page q \<le> maxPages)
    \<and> int (length sent) \<le> max 0 maxPages
    \<and> (\<forall>j r. j < length sent \<and> net (sent ! j) = Resolved r
          \<and> (length (json r) = 0 \<or> int (length (json r)) < perPage)
        \<longrightarrow> Suc j = length sent)
    \<and> (1 \<le> maxPages \<longrightarrow> sent \<noteq> [])
    \<and> (\<forall>j. j < length sent \<and> full_page net perPage (sent ! j) \<and> q_page (sent ! j) < maxPages
        \<longrightarrow> Suc j < length sent)
    \<and> (\<forall>k. 1 \<le> k \<and> k \<le> maxPages
          \<and> (\<forall>p. 1 \<le> p \<and> p < k \<longrightarrow> full_page net perPage (all_query perPage p))
          \<and> \<not> full_page net perPage (all_query perPage k)
        \<longrightarrow> sent = map (all_query perPage) [1..k]
          \<and> fetchAllIssues net perPage maxPages
              = last_answer (net (all_query perPage k))
                  (concat (map (\<lambda>p. page_issues net (all_query perPage p)) [1..k - 1])))
    \<and> ((\<forall>p. 1 \<le> p \<and> p \<le> maxPages \<longrightarrow> full_page net perPage (all_query perPage p))
        \<longrightarrow> sent = map (all_query perPage) [1..maxPages]
          \<and> fetchAllIssues net perPage maxPages
              = Inr (concat (map (\<lambda>p. page_issues net (all_query perPage p)) [1..maxPages])))"
proof -
  have q: "\<And>p. q_page (all_query perPage p) = p" by (simp add: all_query_def)
  let ?sent = "fst (fetch_loop net (all_query perPage) perPage maxPages 1 [] [])"
  note safe = fetch_loop_from_1 [of "all_query perPage" net perPage maxPages, OF q,
      unfolded Let_def]
  note live = fetch_loop_from_1_live [of "all_query perPage" net perPage maxPages, OF q,
      unfolded Let_def]
  have exact: "?sent = map (all_query perPage) [1..k]
      \<and> snd (fetch_loop net (all_query perPage) perPage maxPages 1 [] [])
          = last_answer (net (all_query perPage k))
              (concat (map (\<lambda>p. page_issues net (all_query perPage p)) [1..k - 1]))"
    if "1 \<le> k \<and> k \<le> maxPages
          \<and> (\<forall>p. 1 \<le> p \<and> p < k \<longrightarrow> full_page net perPage (all_query perPage p))
          \<and> \<not> full_page net perPage (all_query perPage k)" for k
    using that
      fetch_loop_exact [OF refl, of 1 k maxPages net perPage "all_query perPage" "[]" "[]"]
    by simp
  have all: "?sent = map (all_query perPage) [1..maxPages]
      \<and> snd (fetch_loop net (all_query perPage) perPage maxPages 1 [] [])
          = Inr (concat (map (\<lambda>p. page_issues net (all_query perPage p)) [1..maxPages]))"
    if "\<forall>p. 1 \<le> p \<and> p \<le> maxPages \<longrightarrow> full_page net perPage (all_query perPage p)"
    using that
      fetch_loop_all_full [OF refl, of 1 maxPages net perPage "all_query perPage" "[]" "[]"]
    by simp
  show ?thesis
    unfolding Let_def fetchAllIssues_run_def fetchAllIssues_def
    using safe live exact all by blast
qed

theorem fetchAllIssues_pagination_witness:
  "net_full_then_empty (all_query 2 1) = ok_page [buddy_needs_two, plain_one]
   \<and> net_full_then_empty (all_query 2 2) = ok_page []
   \<and> fst (fetchAllIssues_run net_full_then_empty 2 10) = [all_query 2 1, all_query 2 2]
   \<and> fetchAllIssues net_full_then_empty 2 10 = Inr [buddy_needs_two, plain_one]
   \<and> map q_page (fst (fetchAllIssues_run net_full_then_empty 2 10))
       = [1..int (length (fst (fetchAllIssues_run net_full_then_empty 2 10)))]
   \<and> int (length (fst (fetchAllIssues_run net_full_then_empty 2 10))) \<le> 10"
proof -
  let ?sent = "fst (fetchAllIssues_run net_full_then_empty 2 10)"
  have n1: "net_full_then_empty (all_query 2 1) = ok_page [buddy_needs_two, plain_one]"
    by (simp add: net_full_then_empty_def all_query_def)
  have n2: "net_full_then_empty (all_query 2 2) = ok_page []"
    by (simp add: net_full_then_empty_def all_query_def)
  have full1: "full_page net_full_then_empty 2 (all_query 2 1)"
    using n1 by (simp add: full_page_def ok_page_def ok_def)
  have empty2: "\<not> full_page net_full_then_empty 2 (all_query 2 2)"
    using n2 by (simp add: full_page_def ok_page_def ok_def)
  have "p = 1" if "1 \<le> p \<and> p < 2" for p :: int using that by simp
  with full1 have before: "\<forall>p. 1 \<le> p \<and> p < 2 \<longrightarrow> full_page net_full_then_empty 2 (all_query 2 p)"
    by blast
  have hyp: "(1 :: int) \<le> 2 \<and> (2 :: int) \<le> 10
      \<and> (\<forall>p. 1 \<le> p \<and> p < 2 \<longrightarrow> full_page net_full_then_empty 2 (all_query 2 p))
      \<and> \<not> full_page net_full_then_empty 2 (all_query 2 2)"
    using before empty2 by simp
  note t = fetchAllIssues_pagination [of net_full_then_empty 2 10, unfolded Let_def]
  from t hyp have run: "?sent = map (all_query 2) [1..2]
      \<and> fetchAllIssues net_full_then_empty 2 10
          = last_answer (net_full_then_empty (all_query 2 2))
              (concat (map (\<lambda>p. page_issues net_full_then_empty (all_query 2 p)) [1..2 - 1]))"
    by blast
  have up2: "[1..2 :: int] = [1, 2]" and up1: "[1..2 - 1 :: int] = [1]"
    by (simp_all add: upto_rec1)
  from run have s: "?sent = [all_query 2 1, all_query 2 2]" by (simp add: up2)
  from run have r: "fetchAllIssues net_full_then_empty 2 10 = Inr [buddy_needs_two, plain_one]"
    by (simp add: up1 n1 n2 last_answer_def page_issues_def ok_page_def ok_def)
  from t have "map q_page ?sent = [1..int (length ?sent)]" "int (length ?sent) \<le> max 0 10"
    by blast+
  with n1 n2 s r show ?thesis by simp
qed

text \<open>
  C8. When a request \<^verbatim>\<open>fetchClosedBuddyExchangeIssues\<close> has made is answered by a response
  that is not \<^verbatim>\<open>ok\<close>, the caller receives the error with the status and the status text of
  that response and no issues. When the caller receives issues, every request made was
  answered by an \<^verbatim>\<open>ok\<close> response and the issues are those of all these pages.
\<close>

theorem fetchClosedBuddyExchangeIssues_failure:
  "(\<forall>q r. q \<in> set (fst (fetchClosedBuddyExchangeIssues_run net perPage maxPages))
        \<and> net q = Resolved r \<and> \<not> ok r
      \<longrightarrow> fetchClosedBuddyExchangeIssues net perPage maxPages
            = Inl (ApiError (status r) (statusText r)))
   \<and> (\<forall>xs. fetchClosedBuddyExchangeIssues net perPage maxPages = Inr xs
      \<longrightarrow> (\<forall>q\<in>set (fst (fetchClosedBuddyExchangeIssues_run net perPage maxPages)).
             answered_ok net q)
          \<and> xs = concat (map (page_issues net)
                   (fst (fetchClosedBuddyExchangeIssues_run net perPage maxPages))))"
proof -
  obtain sent res where run:
    "fetch_loop net (closed_query perPage) perPage maxPages 1 [] [] = (sent, res)"
    by (cases "fetch_loop net (closed_query perPage) perPage maxPages 1 [] []")
  from fetch_loop_log [OF run]
  obtain ps where ps: "sent = map (closed_query perPage) ps"
    "\<forall>p\<in>set ps. \<forall>r. net (closed_query perPage p) = Resolved r \<and> \<not> ok r
           \<longrightarrow> res = Inl (ApiError (status r) (statusText r))"
    "\<forall>xs. res = Inr xs \<longrightarrow>
           xs = [] @ concat (map (\<lambda>p. page_issues net (closed_query perPage p)) ps)
           \<and> (\<forall>p\<in>set ps. answered_ok net (closed_query perPage p))"
    by auto
  have a: "res = Inl (ApiError (status r) (statusText r))"
    if "q \<in> set sent" "net q = Resolved r" "\<not> ok r" for q r
    using that ps(1,2) by auto
  have b: "(\<forall>q\<in>set sent. answered_ok net q) \<and> xs = concat (map (page_issues net) sent)"
    if "res = Inr xs" for xs
    using that ps(1,3) by (simp add: comp_def)
  from a b show ?thesis
    unfolding fetchClosedBuddyExchangeIssues_def fetchClosedBuddyExchangeIssues_run_def run
    by simp blast
qed

lemma full_then_forbidden_run:
  "fetchClosedBuddyExchangeIssues_run net_full_then_forbidden 2 10
     = ([closed_query 2 1, closed_query 2 2], Inl (ApiError 403 ''Forbidden''))"
  by code_simp

theorem fetchClosedBuddyExchangeIssues_failure_witness:
  "fst (fetchClosedBuddyExchangeIssues_run net_full_then_forbidden 2 10)
     = [closed_query 2 1, closed_query 2 2]
   \<and> net_full_then_forbidden (closed_query 2 1) = ok_page [buddy_needs_two, plain_one]
   \<and> net_full_then_forbidden (closed_query 2 2)
       = Resolved \<lparr>status = 403, statusText = ''Forbidden'', json = []\<rparr>
   \<and> fetchClosedBuddyExchangeIssues net_full_then_forbidden 2 10
       = Inl (ApiError 403 ''Forbidden'')"
proof -
  let ?bad = "\<lparr>status = 403, statusText = ''Forbidden'', json = []\<rparr>"
  have s: "fst (fetchClosedBuddyExchangeIssues_run net_full_then_forbidden 2 10)
      = [closed_query 2 1, closed_query 2 2]"
    by (simp add: full_then_forbidden_run)
  have n1: "net_full_then_forbidden (closed_query 2 1) = ok_page [buddy_needs_two, plain_one]"
    by (simp add: net_full_then_forbidden_def closed_query_def)
  have n2: "net_full_then_forbidden (closed_query 2 2) = Resolved ?bad"
    by (simp add: net_full_then_forbidden_def closed_query_def)
  have hyp: "closed_query 2 2 \<in> set (fst (fetchClosedBuddyExchangeIssues_run net_full_then_forbidden 2 10))
      \<and> net_full_then_forbidden (closed_query 2 2) = Resolved ?bad \<and> \<not> ok ?bad"
    using n2 by (simp add: s ok_def)
  from fetchClosedBuddyExchangeIssues_failure [of net_full_then_forbidden 2 10]
  have "\<forall>q r. q \<in> set (fst (fetchClosedBuddyExchangeIssues_run net_full_then_forbidden 2 10))
        \<and> net_full_then_forbidden q = Resolved r \<and> \<not> ok r
      \<longrightarrow> fetchClosedBuddyExchangeIssues net_full_then_forbidden 2 10
            = Inl (ApiError (status r) (statusText r))"
    by blast
  with hyp have "fetchClosedBuddyExchangeIssues net_full_then_forbidden 2 10
      = Inl (ApiError (status ?bad) (statusText ?bad))"
    by blast
  with s n1 n2 show ?thesis by simp
qed

section \<open>Properties of the leaderboard\<close>

subsection \<open>Loops and objects\<close>

lemma forEach_invariant:
  assumes "forEach f xs s = Inr s'" and "P s"
    and "\<And>x s s'. x \<in> set xs \<Longrightarrow> P s \<Longrightarrow> f x s = Inr s' \<Longrightarrow> P s'"
  shows "P s'"
  using assms
proof (induction xs arbitrary: s)
  case Nil
  then show ?case by simp
next
  case (Cons x xs)
  from Cons.prems(1) obtain s1 where s1: "f x s = Inr s1" "forEach f xs s1 = Inr s'"
    by (auto split: sum.splits)
  from Cons.prems(3) [of x s s1] Cons.prems(2) s1(1) have "P s1" by simp
  show ?case
  proof (rule Cons.IH [OF s1(2) \<open>P s1\<close>])
    fix y t t'
    assume "y \<in> set xs" "P t" "f y t = Inr t'"
    then show "P t'" using Cons.prems(3) [of y t t'] by simp
  qed
qed

lemma forEach_append:
  assumes "forEach f xs s = Inr s'"
    and "\<And>x s s'. x \<in> set xs \<Longrightarrow> f x s = Inr s' \<Longrightarrow> proj s' = proj s @ added x"
  shows "proj s' = proj s @ concat (map added xs)"
  using assms
proof (induction xs arbitrary: s)
  case Nil
  then show ?case by simp
next
  case (Cons x xs)
  from Cons.prems(1) obtain s1 where s1: "f x s = Inr s1" "forEach f xs s1 = Inr s'"
    by (auto split: sum.splits)
  from Cons.prems(2) [of x s s1] s1(1) have a: "proj s1 = proj s @ added x" by simp
  have "proj s' = proj s1 @ concat (map added xs)"
  proof (rule Cons.IH [OF s1(2)])
    fix y t t'
    assume "y \<in> set xs" "f y t = Inr t'"
    then show "proj t' = proj t @ added y" using Cons.prems(2) [of y t t'] by simp
  qed
  with a show ?case by simp
qed

lemma get_prop_Undefined: "get_prop obj k = Undefined \<Longrightarrow> map_of obj k = None"
  by (auto simp: get_prop_def split: option.splits)

lemma map_of_ensure:
  "map_of (ensure k fresh obj) =
     (if get_prop obj k = Undefined then (map_of obj)(k \<mapsto> fresh) else map_of obj)"
proof (cases "get_prop obj k = Undefined")
  case True
  then have "map_of obj k = None" by (auto simp: get_prop_def split: option.splits)
  then have "map_of (obj @ [(k, fresh)]) = (map_of obj)(k \<mapsto> fresh)"
    by (auto simp: map_add_def fun_eq_iff split: option.splits)
  with True show ?thesis by (simp add: ensure_def)
next
  case False
  then show ?thesis by (cases "get_prop obj k") (simp_all add: ensure_def)
qed

lemma distinct_ensure:
  "distinct (map fst obj) \<Longrightarrow> distinct (map fst (ensure k fresh obj))"
proof (cases "get_prop obj k")
  case Undefined
  then have "map_of obj k = None" by (auto simp: get_prop_def split: option.splits)
  then have "k \<notin> fst ` set obj" by (simp add: map_of_eq_None_iff)
  moreover assume "distinct (map fst obj)"
  ultimately show ?thesis using Undefined by (simp add: ensure_def)
qed (simp_all add: ensure_def)

lemma modify_Inr:
  assumes "modify k g obj = Inr obj'"
  shows "\<exists>v. map_of obj k = Some v \<and> map_of obj' = (map_of obj)(k \<mapsto> g v)
    \<and> map fst obj' = map fst obj"
proof -
  from assms obtain v where v: "get_prop obj k = Own v" "obj' = AList.update k (g v) obj"
    by (cases "get_prop obj k") (auto simp: modify_def)
  from v(1) have m: "map_of obj k = Some v"
    by (auto simp: get_prop_def split: option.splits if_splits)
  then have "k \<in> fst ` set obj" by (metis domI dom_map_of_conv_image_fst)
  with v(2) have "map fst obj' = map fst obj" by (simp add: update_keys)
  with m v(2) show ?thesis by (simp add: update_conv')
qed

text \<open>The block "create the record if it is missing, then update it".\<close>

lemma modify_ensure:
  assumes "modify k g (ensure k fresh obj) = Inr obj'"
  shows "map_of obj' = (map_of obj)(k \<mapsto> g (case map_of obj k of None \<Rightarrow> fresh | Some v \<Rightarrow> v))"
proof -
  from modify_Inr [OF assms] obtain v where
    v: "map_of (ensure k fresh obj) k = Some v"
       "map_of obj' = (map_of (ensure k fresh obj))(k \<mapsto> g v)"
    by blast
  show ?thesis
  proof (cases "get_prop obj k = Undefined")
    case True
    then have "map_of obj k = None" by (auto simp: get_prop_def split: option.splits)
    with v True show ?thesis by (simp add: map_of_ensure)
  next
    case False
    with v show ?thesis by (auto simp: map_of_ensure)
  qed
qed

lemma distinct_modify:
  "modify k g obj = Inr obj' \<Longrightarrow> distinct (map fst obj) \<Longrightarrow> distinct (map fst obj')"
  using modify_Inr [of k g obj obj'] by auto

lemma set_Object_values: "set (Object_values obj) = snd ` set obj"
  by (auto simp: Object_values_def)

lemma Object_values_entry:
  assumes "distinct (map fst obj)" and "e \<in> set (Object_values obj)"
  shows "\<exists>k. map_of obj k = Some e"
proof -
  from assms(2) obtain k where "(k, e) \<in> set obj" by (auto simp: set_Object_values)
  with assms(1) have "map_of obj k = Some e" by simp
  then show ?thesis ..
qed

subsection \<open>The tallies of the leaderboard\<close>

lemma concat_if_replicate:
  "concat (map (\<lambda>a. if P a then [n] else []) as) = replicate (length (filter P as)) n"
  by (induction as) simp_all

lemma issues_of_ensure: "issues_of (ensure k (new_leader a) obj) u = issues_of obj u"
  by (auto simp: issues_of_def map_of_ensure new_leader_def dest: get_prop_Undefined)

lemma issues_of_add_completed:
  assumes "modify k (add_completed i) (ensure k (new_leader a) obj) = Inr obj'"
  shows "issues_of obj' u = issues_of obj u @ (if k = u then [number i] else [])"
  using modify_ensure [OF assms]
  by (auto simp: issues_of_def add_completed_def new_leader_def Let_def split: option.splits)

lemma issues_of_count_primary:
  assumes "count_primary i obj = Inr obj'"
  shows "issues_of obj' u = issues_of obj u
     @ replicate (length (filter (\<lambda>l. l = u) (case assignee i of None \<Rightarrow> [] | Some a \<Rightarrow> [login a])))
         (number i)"
proof (cases "assignee i")
  case None
  with assms show ?thesis by (simp add: count_primary_def)
next
  case (Some a)
  with assms have "modify (login a) (add_completed i) (ensure (login a) (new_leader a) obj) = Inr obj'"
    by (simp add: count_primary_def)
  from issues_of_add_completed [OF this] Some show ?thesis by simp
qed

lemma issues_of_count_additional:
  assumes "count_additional i a obj = Inr obj'"
  shows "issues_of obj' u = issues_of obj u
     @ (if not_primary i (login a) \<and> login a = u then [number i] else [])"
proof (cases "not_primary i (login a)")
  case True
  with assms have "modify (login a) (add_completed i) (ensure (login a) (new_leader a) obj) = Inr obj'"
    by (simp add: count_additional_def)
  from issues_of_add_completed [OF this] True show ?thesis by simp
next
  case False
  with assms have "obj' = ensure (login a) (new_leader a) obj"
    by (simp add: count_additional_def)
  with False show ?thesis by (simp add: issues_of_ensure)
qed

lemma issues_of_count_additionals:
  assumes "count_additionals i obj = Inr obj'"
  shows "issues_of obj' u = issues_of obj u
     @ replicate (length (filter (\<lambda>l. l = u)
           (case assignees i of None \<Rightarrow> [] | Some as \<Rightarrow> filter (not_primary i) (map login as))))
         (number i)"
proof (cases "assignees i")
  case None
  with assms show ?thesis by (simp add: count_additionals_def)
next
  case (Some as)
  show ?thesis
  proof (cases "length as > 0")
    case False
    with assms Some show ?thesis by (simp add: count_additionals_def)
  next
    case True
    with assms Some have fe: "forEach (count_additional i) as obj = Inr obj'"
      by (simp add: count_additionals_def)
    have "issues_of obj' u = issues_of obj u
       @ concat (map (\<lambda>a. if not_primary i (login a) \<and> login a = u then [number i] else []) as)"
      by (rule forEach_append [OF fe, where proj = "\<lambda>obj. issues_of obj u"])
        (rule issues_of_count_additional)
    then show ?thesis
      using Some by (simp add: concat_if_replicate filter_map comp_def conj_commute)
  qed
qed

lemma credited_none: "\<not> has_assignee i \<Longrightarrow> credited i = []"
  by (auto simp: has_assignee_def credited_def split: option.splits)

lemma issues_of_leaderboard_issue:
  assumes "leaderboard_issue i st = Inr st'"
  shows "issues_of (fst st') u = issues_of (fst st) u @ replicate (credits u i) (number i)"
proof (cases "has_assignee i")
  case False
  with assms show ?thesis by (simp add: leaderboard_issue_def credits_def credited_none)
next
  case True
  with assms obtain obj1 where
    o: "count_primary i (fst st) = Inr obj1" "count_additionals i obj1 = Inr (fst st')"
    by (auto simp: leaderboard_issue_def split: sum.splits)
  from issues_of_count_primary [OF o(1), of u] issues_of_count_additionals [OF o(2), of u]
  show ?thesis
    by (simp add: credits_def credited_def replicate_add [symmetric])
qed

lemma issues_of_forEach:
  assumes "forEach leaderboard_issue issues st = Inr st'"
  shows "issues_of (fst st') u
     = issues_of (fst st) u @ concat (map (\<lambda>i. replicate (credits u i) (number i)) issues)"
  by (rule forEach_append [OF assms, where proj = "\<lambda>st. issues_of (fst st) u"])
    (rule issues_of_leaderboard_issue)

lemma total_leaderboard_issue:
  "leaderboard_issue i st = Inr st' \<Longrightarrow>
   [snd st'] = [snd st] \<and> \<not> has_assignee i \<or> snd st' = snd st + 1 \<and> has_assignee i"
  by (auto simp: leaderboard_issue_def split: sum.splits if_splits)

lemma total_forEach:
  "forEach leaderboard_issue issues st = Inr st' \<Longrightarrow>
   snd st' = snd st + int (length (filter has_assignee issues))"
proof (induction issues arbitrary: st)
  case Nil
  then show ?case by simp
next
  case (Cons i issues)
  from Cons.prems obtain s1 where s1: "leaderboard_issue i st = Inr s1"
    "forEach leaderboard_issue issues s1 = Inr st'"
    by (auto split: sum.splits)
  from total_leaderboard_issue [OF s1(1)] Cons.IH [OF s1(2)] show ?case by auto
qed

lemma tally_ok_ensure: "tally_ok obj \<Longrightarrow> tally_ok (ensure (login a) (new_leader a) obj)"
  by (auto simp: tally_ok_def distinct_ensure map_of_ensure new_leader_def)

lemma tally_ok_add_completed:
  assumes "modify k (add_completed i) obj = Inr obj'" and "tally_ok obj"
  shows "tally_ok obj'"
proof -
  from modify_Inr [OF assms(1)] obtain v where
    v: "map_of obj k = Some v" "map_of obj' = (map_of obj)(k \<mapsto> add_completed i v)"
       "map fst obj' = map fst obj"
    by blast
  from assms(2) v(1) have "username v = k \<and> completedCount v = int (length (completedIssues v))"
    by (simp add: tally_ok_def)
  then have "username (add_completed i v) = k
      \<and> completedCount (add_completed i v) = int (length (completedIssues (add_completed i v)))"
    by (simp add: add_completed_def Let_def)
  with assms(2) v(2,3) show ?thesis by (auto simp: tally_ok_def)
qed

lemma tally_ok_count_primary:
  "count_primary i obj = Inr obj' \<Longrightarrow> tally_ok obj \<Longrightarrow> tally_ok obj'"
  by (cases "assignee i")
    (auto simp: count_primary_def intro: tally_ok_add_completed tally_ok_ensure)

lemma tally_ok_count_additional:
  "count_additional i a obj = Inr obj' \<Longrightarrow> tally_ok obj \<Longrightarrow> tally_ok obj'"
  by (auto simp: count_additional_def Let_def split: if_splits
      intro: tally_ok_add_completed tally_ok_ensure)

lemma tally_ok_count_additionals:
  assumes "count_additionals i obj = Inr obj'" and "tally_ok obj"
  shows "tally_ok obj'"
proof (cases "assignees i")
  case None
  with assms show ?thesis by (simp add: count_additionals_def)
next
  case (Some as)
  show ?thesis
  proof (cases "length as > 0")
    case False
    with assms Some show ?thesis by (simp add: count_additionals_def)
  next
    case True
    with assms Some have fe: "forEach (count_additional i) as obj = Inr obj'"
      by (simp add: count_additionals_def)
    show ?thesis
      by (rule forEach_invariant [OF fe, where P = tally_ok])
        (rule assms(2), rule tally_ok_count_additional)
  qed
qed

lemma tally_ok_leaderboard_issue:
  "leaderboard_issue i st = Inr st' \<Longrightarrow> tally_ok (fst st) \<Longrightarrow> tally_ok (fst st')"
  by (auto simp: leaderboard_issue_def split: if_splits sum.splits
      dest: tally_ok_count_primary tally_ok_count_additionals)

lemma tally_ok_forEach:
  assumes "forEach leaderboard_issue issues ([], 0) = Inr st"
  shows "tally_ok (fst st)"
proof -
  have "tally_ok (fst ([] :: leader_stats js_object, 0 :: int))" by (simp add: tally_ok_def)
  show ?thesis
    by (rule forEach_invariant [OF assms, where P = "\<lambda>st. tally_ok (fst st)"])
      (simp add: tally_ok_def, rule tally_ok_leaderboard_issue)
qed

lemma calculateLeaderboard_Inr:
  assumes "calculateLeaderboard now issues = Inr r"
  obtains st where "forEach leaderboard_issue issues ([], 0) = Inr st"
    and "totalCompleted r = snd st"
    and "leaderboard r
      = map (\<lambda>u. u\<lparr>searchUrl := Some (generateUserIssuesSearchUrl (username u))\<rparr>)
          (sort_key (\<lambda>u. - completedCount u) (Object_values (fst st)))"
  using assms
  by (cases "forEach leaderboard_issue issues ([], 0)")
    (auto simp: calculateLeaderboard_def Let_def)

lemma leaderboard_entry:
  assumes "calculateLeaderboard now issues = Inr r" and "e \<in> set (leaderboard r)"
  shows "completedCount e = int (length (completedIssues e))
    \<and> completedIssues e
        = concat (map (\<lambda>i. replicate (credits (username e) i) (number i)) issues)"
proof -
  from assms(1) obtain st where st: "forEach leaderboard_issue issues ([], 0) = Inr st"
    "leaderboard r
      = map (\<lambda>u. u\<lparr>searchUrl := Some (generateUserIssuesSearchUrl (username u))\<rparr>)
          (sort_key (\<lambda>u. - completedCount u) (Object_values (fst st)))"
    by (rule calculateLeaderboard_Inr)
  from assms(2) st(2) obtain e0 where e0: "e0 \<in> set (Object_values (fst st))"
    "e = e0\<lparr>searchUrl := Some (generateUserIssuesSearchUrl (username e0))\<rparr>"
    by auto
  have ok: "tally_ok (fst st)" using st(1) by (rule tally_ok_forEach)
  then have "distinct (map fst (fst st))" by (simp add: tally_ok_def)
  from Object_values_entry [OF this e0(1)] obtain k where k: "map_of (fst st) k = Some e0" ..
  with ok have u: "username e0 = k" "completedCount e0 = int (length (completedIssues e0))"
    by (simp_all add: tally_ok_def)
  from issues_of_forEach [OF st(1), of k] k
  have "completedIssues e0 = concat (map (\<lambda>i. replicate (credits k i) (number i)) issues)"
    by (simp add: issues_of_def)
  with u e0(2) show ?thesis by simp
qed

lemma filter_eq_distinct_le1: "distinct xs \<Longrightarrow> length (filter (\<lambda>l. l = u) xs) \<le> Suc 0"
  by (induction xs) (auto simp: filter_empty_conv)

lemma credits_le1:
  assumes "\<forall>as. assignees i = Some as \<longrightarrow> distinct (map login as)"
  shows "credits u i \<le> 1"
proof (cases "assignees i")
  case None
  then show ?thesis by (simp add: credits_def credited_def split: option.splits)
next
  case (Some as)
  with assms have d: "distinct (map login as)" by simp
  show ?thesis
  proof (cases "assignee i")
    case None
    with Some filter_eq_distinct_le1 [OF d, of u] show ?thesis
      by (simp add: credits_def credited_def not_primary_def)
  next
    case (Some a)
    have "filter (\<lambda>l. l = u) (filter (not_primary i) (map login as))
        = (if login a = u then [] else filter (\<lambda>l. l = u) (map login as))"
      using Some by (auto simp: not_primary_def filter_empty_conv intro: filter_cong)
    with Some \<open>assignees i = Some as\<close> filter_eq_distinct_le1 [OF d, of u] show ?thesis
      by (simp add: credits_def credited_def)
  qed
qed

lemma distinct_credited_numbers:
  assumes "distinct (map number issues)" and "\<forall>i\<in>set issues. credits u i \<le> 1"
  shows "distinct (concat (map (\<lambda>i. replicate (credits u i) (number i)) issues))"
  using assms
proof (induction issues)
  case Nil
  then show ?case by simp
next
  case (Cons i issues)
  have sub: "set (concat (map (\<lambda>i. replicate (credits u i) (number i)) issues))
      \<subseteq> number ` set issues"
    by auto
  from Cons.prems(2) have "credits u i = 0 \<or> credits u i = 1" by auto
  then show ?case
  proof
    assume "credits u i = 0"
    with Cons show ?thesis by simp
  next
    assume "credits u i = 1"
    moreover from Cons.prems(1) sub
    have "number i \<notin> set (concat (map (\<lambda>i. replicate (credits u i) (number i)) issues))"
      by auto
    ultimately show ?thesis using Cons by simp
  qed
qed

text \<open>
  C2, as the code has it. In every entry of a leaderboard \<^verbatim>\<open>calculateLeaderboard\<close> returns,
  \<^verbatim>\<open>completedCount\<close> is the number of entries of \<^verbatim>\<open>completedIssues\<close>. When the issues of the
  input have pairwise different numbers and no \<^verbatim>\<open>assignees\<close> array names a login twice, no
  number is twice in the \<^verbatim>\<open>completedIssues\<close> of an entry.
\<close>

theorem calculateLeaderboard_entries:
  assumes "calculateLeaderboard now closedIssues = Inr r" and "e \<in> set (leaderboard r)"
  shows "completedCount e = int (length (completedIssues e))
    \<and> (distinct (map number closedIssues)
        \<and> (\<forall>i\<in>set closedIssues. \<forall>as. assignees i = Some as \<longrightarrow> distinct (map login as))
       \<longrightarrow> distinct (completedIssues e))"
proof -
  note entry = leaderboard_entry [OF assms]
  have "distinct (completedIssues e)"
    if "distinct (map number closedIssues)"
      and "\<forall>i\<in>set closedIssues. \<forall>as. assignees i = Some as \<longrightarrow> distinct (map login as)"
  proof -
    from that(2) have "\<forall>i\<in>set closedIssues. credits (username e) i \<le> 1"
      using credits_le1 by blast
    from distinct_credited_numbers [OF that(1) this] entry show ?thesis by simp
  qed
  with entry show ?thesis by blast
qed

lemma closed_issues_board:
  "completed_lists (calculateLeaderboard 0 closed_issues)
     = [(''carol'', 2, [31, 32]), (''bob'', 1, [31])]"
  by code_simp

theorem calculateLeaderboard_entries_witness:
  "\<exists>r e. calculateLeaderboard 0 closed_issues = Inr r \<and> e \<in> set (leaderboard r)
     \<and> username e = ''carol'' \<and> completedCount e = 2 \<and> completedIssues e = [31, 32]
     \<and> completedCount e = int (length (completedIssues e)) \<and> distinct (completedIssues e)"
proof -
  from closed_issues_board obtain r where r: "calculateLeaderboard 0 closed_issues = Inr r"
    by (cases "calculateLeaderboard 0 closed_issues") (simp_all add: completed_lists_def)
  with closed_issues_board
  have "(''carol'', 2, [31, 32])
      \<in> set (map (\<lambda>e. (username e, completedCount e, completedIssues e)) (leaderboard r))"
    by (simp add: completed_lists_def)
  then obtain e where e: "e \<in> set (leaderboard r)" "username e = ''carol''"
    "completedCount e = 2" "completedIssues e = [31, 32]"
    by auto
  have d: "distinct (map number closed_issues)
      \<and> (\<forall>i\<in>set closed_issues. \<forall>as. assignees i = Some as \<longrightarrow> distinct (map login as))"
    by (simp add: closed_issues_def sample_issue_def person_def)
  from calculateLeaderboard_entries [OF r e(1)] d
  have "completedCount e = int (length (completedIssues e)) \<and> distinct (completedIssues e)"
    by blast
  with r e show ?thesis by blast
qed

text \<open>
  C2 as it is written fails on a list that holds an issue twice (as two pages of a
  listing sorted by update time can): the number is pushed at each occurrence.
\<close>

theorem calculateLeaderboard_twice_listed:
  "completed_lists (calculateLeaderboard 0 twice_listed) = [(''bob'', 2, [41, 41])]
   \<and> \<not> distinct [41, 41 :: int]"
proof -
  have "completed_lists (calculateLeaderboard 0 twice_listed) = [(''bob'', 2, [41, 41])]"
    by code_simp
  then show ?thesis by simp
qed

text \<open>
  C4. The \<^verbatim>\<open>totalCompleted\<close> that \<^verbatim>\<open>calculateLeaderboard\<close> returns is the number of issues of
  the input that have an \<^verbatim>\<open>assignee\<close> or a non-empty \<^verbatim>\<open>assignees\<close> array: one for each such
  issue, however many assignees it has.
\<close>

theorem calculateLeaderboard_totalCompleted:
  assumes "calculateLeaderboard now closedIssues = Inr r"
  shows "totalCompleted r
    = int (length (filter (\<lambda>i. assignee i \<noteq> None \<or> (\<exists>as. assignees i = Some as \<and> as \<noteq> []))
        closedIssues))"
proof -
  from assms obtain st where st: "forEach leaderboard_issue closedIssues ([], 0) = Inr st"
    "totalCompleted r = snd st"
    by (rule calculateLeaderboard_Inr)
  have "has_assignee = (\<lambda>i. assignee i \<noteq> None \<or> (\<exists>as. assignees i = Some as \<and> as \<noteq> []))"
    by (auto simp: has_assignee_def fun_eq_iff split: option.splits)
  with total_forEach [OF st(1)] st(2) show ?thesis by simp
qed

theorem calculateLeaderboard_totalCompleted_witness:
  "\<exists>r. calculateLeaderboard 0 closed_issues = Inr r \<and> totalCompleted r = 2
     \<and> length closed_issues = 3"
proof -
  from closed_issues_board obtain r where r: "calculateLeaderboard 0 closed_issues = Inr r"
    by (cases "calculateLeaderboard 0 closed_issues") (simp_all add: completed_lists_def)
  have "length (filter (\<lambda>i. assignee i \<noteq> None \<or> (\<exists>as. assignees i = Some as \<and> as \<noteq> []))
      closed_issues) = 2"
    by (simp add: closed_issues_def sample_issue_def)
  with calculateLeaderboard_totalCompleted [OF r] have "totalCompleted r = 2" by simp
  moreover have "length closed_issues = 3" by (simp add: closed_issues_def)
  ultimately show ?thesis using r by blast
qed

text \<open>
  \<^verbatim>\<open>calculateLeaderboard\<close> returns unless a credited login is the name of a property every
  object inherits (\<^verbatim>\<open>constructor\<close>, \<^verbatim>\<open>toString\<close>, ...).
\<close>

lemma forEach_returns:
  assumes "\<And>x s. x \<in> set xs \<Longrightarrow> \<exists>s'. f x s = Inr s'"
  shows "\<exists>s'. forEach f xs s = Inr s'"
  using assms
proof (induction xs arbitrary: s)
  case Nil
  show ?case by simp
next
  case (Cons x xs)
  from Cons.prems [of x s] obtain s1 where s1: "f x s = Inr s1" by auto
  have "\<exists>s'. forEach f xs s1 = Inr s'"
  proof (rule Cons.IH)
    fix y t
    assume "y \<in> set xs"
    then show "\<exists>s'. f y t = Inr s'" using Cons.prems [of y t] by simp
  qed
  with s1 show ?case by simp
qed

lemma modify_ensure_returns:
  assumes "k \<notin> set prototype_keys"
  shows "\<exists>obj'. modify k g (ensure k fresh obj) = Inr obj'"
proof (cases "map_of obj k")
  case (Some v)
  then show ?thesis by (simp add: modify_def ensure_def get_prop_def)
next
  case None
  with assms have "get_prop obj k = Undefined" by (simp add: get_prop_def)
  moreover from None have "map_of (obj @ [(k, fresh)]) k = Some fresh"
    by (simp add: map_add_def)
  ultimately show ?thesis by (simp add: modify_def ensure_def get_prop_def)
qed

lemma count_primary_returns:
  assumes "\<forall>u\<in>set (credited i). u \<notin> set prototype_keys"
  shows "\<exists>obj'. count_primary i obj = Inr obj'"
proof (cases "assignee i")
  case None
  then show ?thesis by (simp add: count_primary_def)
next
  case (Some a)
  with assms have "login a \<notin> set prototype_keys" by (simp add: credited_def)
  from modify_ensure_returns [OF this] Some show ?thesis by (simp add: count_primary_def)
qed

lemma count_additionals_returns:
  assumes "\<forall>u\<in>set (credited i). u \<notin> set prototype_keys"
  shows "\<exists>obj'. count_additionals i obj = Inr obj'"
proof (cases "assignees i")
  case None
  then show ?thesis by (simp add: count_additionals_def)
next
  case (Some as)
  have "\<exists>obj'. forEach (count_additional i) as obj = Inr obj'"
  proof (rule forEach_returns)
    fix a t
    assume a: "a \<in> set as"
    show "\<exists>s'. count_additional i a t = Inr s'"
    proof (cases "not_primary i (login a)")
      case False
      then show ?thesis by (simp add: count_additional_def)
    next
      case True
      with a Some have "login a \<in> set (credited i)" by (simp add: credited_def)
      with assms have "login a \<notin> set prototype_keys" by blast
      from modify_ensure_returns [OF this] True show ?thesis
        by (simp add: count_additional_def)
    qed
  qed
  with Some show ?thesis by (simp add: count_additionals_def)
qed

lemma leaderboard_issue_returns:
  assumes "\<forall>u\<in>set (credited i). u \<notin> set prototype_keys"
  shows "\<exists>st'. leaderboard_issue i st = Inr st'"
proof -
  from count_primary_returns [OF assms] obtain obj1 where
    o1: "count_primary i (fst st) = Inr obj1" by blast
  from count_additionals_returns [OF assms] obtain obj2 where
    "count_additionals i obj1 = Inr obj2" by blast
  with o1 show ?thesis by (simp add: leaderboard_issue_def)
qed

lemma calculateLeaderboard_returns:
  assumes "\<forall>i\<in>set issues. \<forall>u\<in>set (credited i). u \<notin> set prototype_keys"
  shows "\<exists>r. calculateLeaderboard now issues = Inr r"
proof -
  have "\<exists>st. forEach leaderboard_issue issues ([], 0) = Inr st"
    by (rule forEach_returns) (use assms leaderboard_issue_returns in blast)
  then show ?thesis by (auto simp: calculateLeaderboard_def Let_def)
qed

section \<open>Properties of the buddy report\<close>

lemma buddy_ok_ensure: "buddy_ok obj \<Longrightarrow> buddy_ok (ensure (login a) (new_buddy a) obj)"
  by (auto simp: buddy_ok_def distinct_ensure map_of_ensure new_buddy_def)

lemma buddy_ok_modify:
  assumes "modify k g obj = Inr obj'" and "buddy_ok obj"
    and "\<And>v. username (g v) = username v"
    and "\<And>v. receivedChecks v = int (length (receivedIssues v))
           \<Longrightarrow> receivedChecks (g v) = int (length (receivedIssues (g v)))"
    and "\<And>v. conductedChecks v = int (length (conductedIssues v))
           \<Longrightarrow> conductedChecks (g v) = int (length (conductedIssues (g v)))"
  shows "buddy_ok obj'"
proof -
  from modify_Inr [OF assms(1)] obtain v where
    v: "map_of obj k = Some v" "map_of obj' = (map_of obj)(k \<mapsto> g v)"
       "map fst obj' = map fst obj"
    by blast
  from assms(2) v(1) have "username v = k \<and> receivedChecks v = int (length (receivedIssues v))
      \<and> conductedChecks v = int (length (conductedIssues v))"
    by (simp add: buddy_ok_def)
  with assms(3-5) have "username (g v) = k \<and> receivedChecks (g v) = int (length (receivedIssues (g v)))
      \<and> conductedChecks (g v) = int (length (conductedIssues (g v)))"
    by simp
  with assms(2) v(2,3) show ?thesis by (auto simp: buddy_ok_def)
qed

lemma buddy_ok_receive:
  "modify k (receive i) obj = Inr obj' \<Longrightarrow> buddy_ok obj \<Longrightarrow> buddy_ok obj'"
  by (erule buddy_ok_modify) (simp_all add: receive_def)

lemma buddy_ok_conduct:
  "modify k (conduct i) obj = Inr obj' \<Longrightarrow> buddy_ok obj \<Longrightarrow> buddy_ok obj'"
  by (erule buddy_ok_modify) (simp_all add: conduct_def)

lemma buddy_ok_received_issue:
  "received_issue i obj = Inr obj' \<Longrightarrow> buddy_ok obj \<Longrightarrow> buddy_ok obj'"
  by (auto simp: received_issue_def intro: buddy_ok_receive buddy_ok_ensure)

lemma buddy_ok_conducted_primary:
  "conducted_primary i obj = Inr obj' \<Longrightarrow> buddy_ok obj \<Longrightarrow> buddy_ok obj'"
  by (cases "assignee i")
    (auto simp: conducted_primary_def intro: buddy_ok_conduct buddy_ok_ensure)

lemma buddy_ok_conducted_additional:
  "conducted_additional i a obj = Inr obj' \<Longrightarrow> buddy_ok obj \<Longrightarrow> buddy_ok obj'"
  by (auto simp: conducted_additional_def Let_def split: if_splits
      intro: buddy_ok_conduct buddy_ok_ensure)

lemma buddy_ok_conducted_additionals:
  assumes "conducted_additionals i obj = Inr obj'" and "buddy_ok obj"
  shows "buddy_ok obj'"
proof (cases "assignees i")
  case None
  with assms show ?thesis by (simp add: conducted_additionals_def)
next
  case (Some as)
  show ?thesis
  proof (cases "length as > 0")
    case False
    with assms Some show ?thesis by (simp add: conducted_additionals_def)
  next
    case True
    with assms Some have fe: "forEach (conducted_additional i) as obj = Inr obj'"
      by (simp add: conducted_additionals_def)
    show ?thesis
      by (rule forEach_invariant [OF fe, where P = buddy_ok])
        (rule assms(2), rule buddy_ok_conducted_additional)
  qed
qed

lemma buddy_ok_conducted_issue:
  "conducted_issue i obj = Inr obj' \<Longrightarrow> buddy_ok obj \<Longrightarrow> buddy_ok obj'"
  by (auto simp: conducted_issue_def split: if_splits sum.splits
      dest: buddy_ok_conducted_primary buddy_ok_conducted_additionals)

lemma received_of_ensure: "received_of (ensure k (new_buddy a) obj) u = received_of obj u"
  by (auto simp: received_of_def map_of_ensure new_buddy_def dest: get_prop_Undefined)

lemma conducted_of_ensure: "conducted_of (ensure k (new_buddy a) obj) u = conducted_of obj u"
  by (auto simp: conducted_of_def map_of_ensure new_buddy_def dest: get_prop_Undefined)

lemma received_issue_lists:
  assumes "received_issue i obj = Inr obj'"
  shows "received_of obj' u = received_of obj u @ (if login (user i) = u then [number i] else [])"
    and "conducted_of obj' u = conducted_of obj u"
  using modify_ensure [OF assms [unfolded received_issue_def]]
  by (auto simp: received_of_def conducted_of_def receive_def new_buddy_def split: option.splits)

lemma conduct_lists:
  assumes "modify k (conduct i) (ensure k (new_buddy a) obj) = Inr obj'"
  shows "conducted_of obj' u = conducted_of obj u @ (if k = u then [number i] else [])"
    and "received_of obj' u = received_of obj u"
  using modify_ensure [OF assms]
  by (auto simp: received_of_def conducted_of_def conduct_def new_buddy_def split: option.splits)

lemma conducted_primary_lists:
  assumes "conducted_primary i obj = Inr obj'"
  shows "conducted_of obj' u = conducted_of obj u
     @ replicate (length (filter (\<lambda>l. l = u) (case assignee i of None \<Rightarrow> [] | Some a \<Rightarrow> [login a])))
         (number i)"
    and "received_of obj' u = received_of obj u"
proof -
  have "conducted_of obj' u = conducted_of obj u
     @ replicate (length (filter (\<lambda>l. l = u) (case assignee i of None \<Rightarrow> [] | Some a \<Rightarrow> [login a])))
         (number i) \<and> received_of obj' u = received_of obj u"
  proof (cases "assignee i")
    case None
    with assms show ?thesis by (simp add: conducted_primary_def)
  next
    case (Some a)
    with assms have "modify (login a) (conduct i) (ensure (login a) (new_buddy a) obj) = Inr obj'"
      by (simp add: conducted_primary_def)
    from conduct_lists [OF this, of u] Some show ?thesis by simp
  qed
  then show "conducted_of obj' u = conducted_of obj u
     @ replicate (length (filter (\<lambda>l. l = u) (case assignee i of None \<Rightarrow> [] | Some a \<Rightarrow> [login a])))
         (number i)" and "received_of obj' u = received_of obj u"
    by simp_all
qed

lemma conducted_additional_lists:
  assumes "conducted_additional i a obj = Inr obj'"
  shows "conducted_of obj' u = conducted_of obj u
     @ (if not_primary i (login a) \<and> login a = u then [number i] else [])"
    and "received_of obj' u = received_of obj u"
proof -
  have "conducted_of obj' u = conducted_of obj u
     @ (if not_primary i (login a) \<and> login a = u then [number i] else [])
     \<and> received_of obj' u = received_of obj u"
  proof (cases "not_primary i (login a)")
    case True
    with assms have "modify (login a) (conduct i) (ensure (login a) (new_buddy a) obj) = Inr obj'"
      by (simp add: conducted_additional_def)
    from conduct_lists [OF this, of u] True show ?thesis by simp
  next
    case False
    with assms have "obj' = ensure (login a) (new_buddy a) obj"
      by (simp add: conducted_additional_def)
    with False show ?thesis by (simp add: conducted_of_ensure received_of_ensure)
  qed
  then show "conducted_of obj' u = conducted_of obj u
     @ (if not_primary i (login a) \<and> login a = u then [number i] else [])"
    and "received_of obj' u = received_of obj u"
    by simp_all
qed

lemma conducted_additionals_lists:
  assumes "conducted_additionals i obj = Inr obj'"
  shows "conducted_of obj' u = conducted_of obj u
     @ replicate (length (filter (\<lambda>l. l = u)
           (case assignees i of None \<Rightarrow> [] | Some as \<Rightarrow> filter (not_primary i) (map login as))))
         (number i)"
    and "received_of obj' u = received_of obj u"
proof -
  have "conducted_of obj' u = conducted_of obj u
     @ replicate (length (filter (\<lambda>l. l = u)
           (case assignees i of None \<Rightarrow> [] | Some as \<Rightarrow> filter (not_primary i) (map login as))))
         (number i) \<and> received_of obj' u = received_of obj u"
  proof (cases "assignees i")
    case None
    with assms show ?thesis by (simp add: conducted_additionals_def)
  next
    case (Some as)
    show ?thesis
    proof (cases "length as > 0")
      case False
      with assms Some show ?thesis by (simp add: conducted_additionals_def)
    next
      case True
      with assms Some have fe: "forEach (conducted_additional i) as obj = Inr obj'"
        by (simp add: conducted_additionals_def)
      have "conducted_of obj' u = conducted_of obj u
         @ concat (map (\<lambda>a. if not_primary i (login a) \<and> login a = u then [number i] else []) as)"
        by (rule forEach_append [OF fe, where proj = "\<lambda>obj. conducted_of obj u"])
          (rule conducted_additional_lists)
      moreover have "received_of obj' u = received_of obj u"
        by (rule forEach_invariant [OF fe, where P = "\<lambda>obj'. received_of obj' u = received_of obj u"])
          (simp, simp add: conducted_additional_lists)
      ultimately show ?thesis
        using Some by (simp add: concat_if_replicate filter_map comp_def conj_commute)
    qed
  qed
  then show "conducted_of obj' u = conducted_of obj u
     @ replicate (length (filter (\<lambda>l. l = u)
           (case assignees i of None \<Rightarrow> [] | Some as \<Rightarrow> filter (not_primary i) (map login as))))
         (number i)"
    and "received_of obj' u = received_of obj u"
    by simp_all
qed

lemma conducted_issue_lists:
  assumes "conducted_issue i obj = Inr obj'"
  shows "conducted_of obj' u = conducted_of obj u
     @ replicate (if state i = ''closed'' then credits u i else 0) (number i)"
    and "received_of obj' u = received_of obj u"
proof -
  have "conducted_of obj' u = conducted_of obj u
     @ replicate (if state i = ''closed'' then credits u i else 0) (number i)
     \<and> received_of obj' u = received_of obj u"
  proof (cases "state i = ''closed'' \<and> has_assignee i")
    case False
    with assms show ?thesis
      by (auto simp: conducted_issue_def credits_def credited_none)
  next
    case True
    with assms obtain obj1 where
      o: "conducted_primary i obj = Inr obj1" "conducted_additionals i obj1 = Inr obj'"
      by (auto simp: conducted_issue_def split: sum.splits)
    from conducted_primary_lists [OF o(1), of u] conducted_additionals_lists [OF o(2), of u] True
    show ?thesis
      by (simp add: credits_def credited_def replicate_add [symmetric])
  qed
  then show "conducted_of obj' u = conducted_of obj u
     @ replicate (if state i = ''closed'' then credits u i else 0) (number i)"
    and "received_of obj' u = received_of obj u"
    by simp_all
qed

lemma length_concat_replicate:
  "length (concat (map (\<lambda>i. replicate (f i) (g i)) xs)) = sum_list (map f xs)"
  by (induction xs) simp_all

lemma sum_list_if_filter:
  "sum_list (map (\<lambda>i. if P i then f i else (0 :: nat)) xs) = sum_list (map f (filter P xs))"
  by (induction xs) simp_all

lemma length_concat_if:
  "length (concat (map (\<lambda>i. if P i then [g i] else []) xs)) = length (filter P xs)"
  by (induction xs) simp_all

lemma first_pass:
  assumes "forEach received_issue issues [] = Inr obj1"
  shows "buddy_ok obj1"
    and "length (received_of obj1 u) = authored u issues"
    and "conducted_of obj1 u = []"
proof -
  show "buddy_ok obj1"
    by (rule forEach_invariant [OF assms, where P = buddy_ok])
      (simp add: buddy_ok_def, rule buddy_ok_received_issue)
  have "received_of obj1 u = received_of [] u
      @ concat (map (\<lambda>i. if login (user i) = u then [number i] else []) issues)"
    by (rule forEach_append [OF assms, where proj = "\<lambda>obj. received_of obj u"])
      (rule received_issue_lists)
  then show "length (received_of obj1 u) = authored u issues"
    by (simp add: received_of_def authored_def length_concat_if)
  show "conducted_of obj1 u = []"
    by (rule forEach_invariant [OF assms, where P = "\<lambda>obj. conducted_of obj u = []"])
      (simp add: conducted_of_def, simp add: received_issue_lists)
qed

lemma second_pass:
  assumes "forEach conducted_issue issues obj1 = Inr obj" and "buddy_ok obj1"
  shows "buddy_ok obj"
    and "received_of obj u = received_of obj1 u"
    and "length (conducted_of obj u) = length (conducted_of obj1 u) + conducted u issues"
proof -
  show "buddy_ok obj"
    by (rule forEach_invariant [OF assms(1), where P = buddy_ok])
      (rule assms(2), rule buddy_ok_conducted_issue)
  show "received_of obj u = received_of obj1 u"
    by (rule forEach_invariant [OF assms(1),
          where P = "\<lambda>obj'. received_of obj' u = received_of obj1 u"])
      (simp, simp add: conducted_issue_lists)
  have "conducted_of obj u = conducted_of obj1 u
      @ concat (map (\<lambda>i. replicate (if state i = ''closed'' then credits u i else 0) (number i))
          issues)"
    by (rule forEach_append [OF assms(1), where proj = "\<lambda>obj. conducted_of obj u"])
      (rule conducted_issue_lists)
  then show "length (conducted_of obj u) = length (conducted_of obj1 u) + conducted u issues"
    by (simp add: length_concat_replicate sum_list_if_filter conducted_def)
qed

subsection \<open>The quotient of two counts as a double\<close>










subsection \<open>The entries of the report\<close>

lemma calculateBuddyRatios_Inr:
  assumes "calculateBuddyRatios now issues = Inr r"
  obtains obj1 obj where "forEach received_issue issues [] = Inr obj1"
    and "forEach conducted_issue issues obj1 = Inr obj"
    and "allRecipients r
      = sort_key (\<lambda>u. - ratio u)
          (map with_ratio (filter (\<lambda>u. receivedChecks u > 0) (Object_values obj)))"
  using assms
  by (auto simp: calculateBuddyRatios_def Let_def split: sum.splits)

lemma buddy_tallies:
  assumes "forEach received_issue issues [] = Inr obj1"
    and "forEach conducted_issue issues obj1 = Inr obj"
  shows "distinct (map fst obj)"
    and "map_of obj k = Some e0 \<Longrightarrow>
           username e0 = k \<and> receivedChecks e0 = int (authored k issues)
           \<and> conductedChecks e0 = int (conducted k issues)"
    and "0 < authored k issues \<Longrightarrow> \<exists>e0. map_of obj k = Some e0"
proof -
  note p1 = first_pass [OF assms(1)]
  note p2 = second_pass [OF assms(2) p1(1)]
  from p2(1) show "distinct (map fst obj)" by (simp add: buddy_ok_def)
  have rec: "length (received_of obj k) = authored k issues"
    using p1(2) [of k] p2(2) [of k] by simp
  have con: "length (conducted_of obj k) = conducted k issues"
    using p1(3) [of k] p2(3) [of k] by simp
  show "username e0 = k \<and> receivedChecks e0 = int (authored k issues)
      \<and> conductedChecks e0 = int (conducted k issues)" if "map_of obj k = Some e0"
    using that p2(1) rec con by (simp add: buddy_ok_def received_of_def conducted_of_def)
  show "\<exists>e0. map_of obj k = Some e0" if "0 < authored k issues"
    using that rec by (cases "map_of obj k") (simp_all add: received_of_def)
qed

lemma buddy_entry:
  assumes "calculateBuddyRatios now issues = Inr r" and "e \<in> set (allRecipients r)"
  shows "ratio e = double_quotient (receivedChecks e) (max (conductedChecks e) 1)"
    and "deficit e = receivedChecks e - conductedChecks e"
    and "receivedChecks e > 0"
    and "receivedChecks e = int (authored (username e) issues)"
    and "conductedChecks e = int (conducted (username e) issues)"
proof -
  from assms(1) obtain obj1 obj where run: "forEach received_issue issues [] = Inr obj1"
    "forEach conducted_issue issues obj1 = Inr obj"
    "allRecipients r
      = sort_key (\<lambda>u. - ratio u)
          (map with_ratio (filter (\<lambda>u. receivedChecks u > 0) (Object_values obj)))"
    by (rule calculateBuddyRatios_Inr)
  from assms(2) run(3) obtain e0 where e0: "e0 \<in> set (Object_values obj)"
    "receivedChecks e0 > 0" "e = with_ratio e0"
    by auto
  note t = buddy_tallies [OF run(1,2)]
  from Object_values_entry [OF t(1) e0(1)] obtain k where "map_of obj k = Some e0" ..
  from t(2) [OF this]
  have k: "username e0 = k" "receivedChecks e0 = int (authored k issues)"
    "conductedChecks e0 = int (conducted k issues)"
    by simp_all
  show "ratio e = double_quotient (receivedChecks e) (max (conductedChecks e) 1)"
    and "deficit e = receivedChecks e - conductedChecks e"
    and "receivedChecks e > 0"
    and "receivedChecks e = int (authored (username e) issues)"
    and "conductedChecks e = int (conducted (username e) issues)"
    using e0(2,3) k by (simp_all add: with_ratio_def)
qed






lemma set_credited: "set (credited i) = assignee_logins i"
  by (auto simp: credited_def assignee_logins_def not_primary_def split: option.splits)

lemma credits_assigned:
  assumes "\<forall>as. assignees i = Some as \<longrightarrow> distinct (map login as)"
  shows "credits u i = (if u \<in> assignee_logins i then 1 else 0)"
proof (cases "u \<in> assignee_logins i")
  case True
  then have "filter (\<lambda>l. l = u) (credited i) \<noteq> []"
    by (simp add: set_credited [symmetric] filter_empty_conv)
  then have "0 < credits u i" by (simp add: credits_def)
  with credits_le1 [OF assms, of u] True show ?thesis by simp
next
  case False
  then have "filter (\<lambda>l. l = u) (credited i) = []"
    by (auto simp: set_credited [symmetric] filter_empty_conv)
  with False show ?thesis by (simp add: credits_def)
qed

text \<open>
  On issues as GitHub sends them (no login twice among the assignees of an issue) the
  conducted checks of a user are the closed issues the user is an assignee of.
\<close>

lemma conducted_assigned:
  assumes "\<forall>i\<in>set issues. \<forall>as. assignees i = Some as \<longrightarrow> distinct (map login as)"
  shows "conducted u issues
    = length (filter (\<lambda>i. state i = ''closed'' \<and> u \<in> assignee_logins i) issues)"
  using assms
proof (induction issues)
  case Nil
  show ?case by (simp add: conducted_def)
next
  case (Cons i issues)
  from Cons.prems have "credits u i = (if u \<in> assignee_logins i then 1 else 0)"
    by (intro credits_assigned) simp
  moreover from Cons have "conducted u issues
    = length (filter (\<lambda>i. state i = ''closed'' \<and> u \<in> assignee_logins i) issues)"
    by simp
  ultimately show ?case by (simp add: conducted_def)
qed

lemma conducted_primary_returns:
  assumes "\<forall>u\<in>set (credited i). u \<notin> set prototype_keys"
  shows "\<exists>obj'. conducted_primary i obj = Inr obj'"
proof (cases "assignee i")
  case None
  then show ?thesis by (simp add: conducted_primary_def)
next
  case (Some a)
  with assms have "login a \<notin> set prototype_keys" by (simp add: credited_def)
  from modify_ensure_returns [OF this] Some show ?thesis by (simp add: conducted_primary_def)
qed

lemma conducted_additionals_returns:
  assumes "\<forall>u\<in>set (credited i). u \<notin> set prototype_keys"
  shows "\<exists>obj'. conducted_additionals i obj = Inr obj'"
proof (cases "assignees i")
  case None
  then show ?thesis by (simp add: conducted_additionals_def)
next
  case (Some as)
  have "\<exists>obj'. forEach (conducted_additional i) as obj = Inr obj'"
  proof (rule forEach_returns)
    fix a t
    assume a: "a \<in> set as"
    show "\<exists>s'. conducted_additional i a t = Inr s'"
    proof (cases "not_primary i (login a)")
      case False
      then show ?thesis by (simp add: conducted_additional_def)
    next
      case True
      with a Some have "login a \<in> set (credited i)" by (simp add: credited_def)
      with assms have "login a \<notin> set prototype_keys" by blast
      from modify_ensure_returns [OF this] True show ?thesis
        by (simp add: conducted_additional_def)
    qed
  qed
  with Some show ?thesis by (simp add: conducted_additionals_def)
qed

lemma conducted_issue_returns:
  assumes "\<forall>u\<in>set (credited i). u \<notin> set prototype_keys"
  shows "\<exists>obj'. conducted_issue i obj = Inr obj'"
proof -
  from conducted_primary_returns [OF assms] obtain obj1 where
    o1: "conducted_primary i obj = Inr obj1" by blast
  from conducted_additionals_returns [OF assms] obtain obj2 where
    "conducted_additionals i obj1 = Inr obj2" by blast
  with o1 show ?thesis by (simp add: conducted_issue_def)
qed

text \<open>
  \<^verbatim>\<open>calculateBuddyRatios\<close> returns unless an author or a credited login is the name of a
  property every object inherits.
\<close>

lemma calculateBuddyRatios_returns:
  assumes "\<forall>i\<in>set issues. login (user i) \<notin> set prototype_keys
      \<and> (\<forall>u\<in>set (credited i). u \<notin> set prototype_keys)"
  shows "\<exists>r. calculateBuddyRatios now issues = Inr r"
proof -
  have "\<exists>obj1. forEach received_issue issues [] = Inr obj1"
  proof (rule forEach_returns)
    fix i t
    assume "i \<in> set issues"
    with assms have "login (user i) \<notin> set prototype_keys" by blast
    from modify_ensure_returns [OF this] show "\<exists>s'. received_issue i t = Inr s'"
      by (simp add: received_issue_def)
  qed
  then obtain obj1 where o1: "forEach received_issue issues [] = Inr obj1" ..
  have "\<exists>obj. forEach conducted_issue issues obj1 = Inr obj"
    by (rule forEach_returns) (use assms conducted_issue_returns in blast)
  with o1 show ?thesis by (auto simp: calculateBuddyRatios_def Let_def)
qed

section \<open>The reports and the clock\<close>










end
